theory Spec2Isabelle
  imports Main "HOL-Library.Multiset" "HOL-Library.AList"
begin

section \<open>Data model of DefaultTransceiverController\<close>

text \<open>
  The controller of \<^verbatim>\<open>src/transceivercontroller/DefaultTransceiverController.ts\<close>
  holds references to browser objects (\<^verbatim>\<open>RTCRtpTransceiver\<close>) and mutates them through
  those references. The objects live in a store, a reference is an address, and every
  method takes the state and returns the new one.
\<close>

datatype direction = Inactive | Recvonly | Sendrecv | Sendonly | Stopped

datatype kind = Audio | Video

text \<open>Values of the properties of an \<^verbatim>\<open>RTCRtpEncodingParameters\<close> object.\<close>

datatype jsval = Undefined | Str string | Num int | Bool bool

text \<open>
  An encoding layer is a JavaScript object: its own enumerable properties in their order,
  each name once. A property is read with \<open>map_of\<close> and written with \<open>AList.update\<close>,
  which overwrites in place or appends, as JavaScript does.
\<close>

type_synonym encoding = "(string \<times> jsval) list"

type_synonym addr = nat

text \<open>
  An \<^verbatim>\<open>RTCRtpTransceiver\<close>: \<open>mid\<close> is null until the browser has negotiated it,
  \<open>receiverTrack\<close> and \<open>senderTrack\<close> are the kinds of \<^verbatim>\<open>receiver.track\<close> and
  \<^verbatim>\<open>sender.track\<close> (\<open>None\<close> when there is no track), \<open>senderEncodings\<close> is the
  \<^verbatim>\<open>encodings\<close> member of the sender's parameters (\<open>None\<close> when undefined).
\<close>

record transceiver =
  mid :: "string option"
  direction :: direction
  receiverTrack :: "kind option"
  senderTrack :: "kind option"
  senderEncodings :: "encoding list option"

text \<open>
  An \<^verbatim>\<open>RTCPeerConnection\<close>: its transceivers in creation order, whether the browser
  defines \<^verbatim>\<open>getTransceivers\<close>, and the mid the browser gives to a transceiver it creates
  (a parameter: the browser is not part of the repository).
\<close>

record peerConnection =
  transceivers :: "addr list"
  getTransceiversDefined :: bool
  newMid :: "addr \<Rightarrow> string option"

text \<open>
  The fields of the class, the answer of \<^verbatim>\<open>browserBehavior.requiresUnifiedPlan()\<close>, and the
  store of transceiver objects with its allocation pointer.
\<close>

record state =
  localCameraTransceiver :: "addr option"
  localAudioTransceiver :: "addr option"
  videoSubscriptions :: "nat list"
  defaultMediaStream :: "unit option"
  peer :: "peerConnection option"
  streamIdToTransceiver :: "nat \<rightharpoonup> addr"
  requiresUnifiedPlan :: bool
  heap :: "addr \<Rightarrow> transceiver"
  nextAddr :: addr

text \<open>
  The \<^verbatim>\<open>VideoStreamIndex\<close> handed to the controller (an interface; its implementation is
  not part of the controller).
\<close>

record streamIndex =
  streamIdForTrack :: "string \<Rightarrow> nat option"
  StreamIdsInSameGroup :: "nat \<Rightarrow> nat \<Rightarrow> bool"

section \<open>Helpers for JavaScript arrays, maps and objects\<close>

text \<open>
  \<^verbatim>\<open>xs[n] = v\<close>: JavaScript overwrites inside the array and extends it at its end. Past the
  end it would leave holes; the controller only ever writes at \<open>n \<le> length xs\<close>
  (lemma \<open>slotLoop_shape\<close>), the model fills a gap with the inactive mark \<open>0\<close>.
\<close>

definition assignAt :: "nat list \<Rightarrow> nat \<Rightarrow> nat \<Rightarrow> nat list" where
  "assignAt xs n v =
     (if n < length xs then xs[n := v] else xs @ replicate (n - length xs) 0 @ [v])"

text \<open>\<^verbatim>\<open>xs[n]\<close>: \<open>None\<close> is \<^verbatim>\<open>undefined\<close>.\<close>

definition readAt :: "nat list \<Rightarrow> nat \<Rightarrow> nat option" where
  "readAt xs n = (if n < length xs then Some (xs ! n) else None)"

text \<open>\<^verbatim>\<open>xs.splice(index, 1)\<close>\<close>

definition spliceAt :: "nat \<Rightarrow> 'a list \<Rightarrow> 'a list" where
  "spliceAt index xs = take index xs @ drop (Suc index) xs"

text \<open>The loop that deletes every entry of the map whose value is the transceiver.\<close>

definition deleteByValue :: "addr \<Rightarrow> (nat \<rightharpoonup> addr) \<Rightarrow> (nat \<rightharpoonup> addr)" where
  "deleteByValue t m = (\<lambda>k. if m k = Some t then None else m k)"

text \<open>\<^verbatim>\<open>'v_' + transceiver.mid\<close>: a null mid concatenates as the text null.\<close>

definition trackId :: "string option \<Rightarrow> string" where
  "trackId m = ''v_'' @ (case m of None \<Rightarrow> ''null'' | Some x \<Rightarrow> x)"

definition setDirection :: "addr \<Rightarrow> direction \<Rightarrow> state \<Rightarrow> state" where
  "setDirection t d s = s\<lparr>heap := (heap s)(t := (heap s t)\<lparr>direction := d\<rparr>)\<rparr>"

text \<open>\<^verbatim>\<open>object.key\<close>: a missing property reads as \<^verbatim>\<open>undefined\<close>.\<close>

definition getProp :: "encoding \<Rightarrow> string \<Rightarrow> jsval" where
  "getProp e key = (case map_of e key of None \<Rightarrow> Undefined | Some v \<Rightarrow> v)"

text \<open>The truth value JavaScript gives to a value in a condition.\<close>

definition truthy :: "jsval \<Rightarrow> bool" where
  "truthy v = (case v of Undefined \<Rightarrow> False | Str x \<Rightarrow> x \<noteq> [] | Num n \<Rightarrow> n \<noteq> 0 | Bool b \<Rightarrow> b)"

section \<open>The methods\<close>

text \<open>
  The loop \<^verbatim>\<open>for (key in changed)\<close> of \<^verbatim>\<open>setEncodingParameters\<close>, over the names of
  the properties of \<open>changed\<close>: \<^verbatim>\<open>rid\<close> and \<^verbatim>\<open>codecPayloadType\<close> are skipped, every
  other own property is assigned to \<open>existing\<close>.
\<close>

fun copyFields :: "string list \<Rightarrow> encoding \<Rightarrow> encoding \<Rightarrow> encoding" where
  "copyFields [] changed existing = existing"
| "copyFields (key # keys) changed existing =
     (if key = ''rid'' \<or> key = ''codecPayloadType'' then copyFields keys changed existing
      else (case map_of changed key of
              None \<Rightarrow> copyFields keys changed existing
            | Some v \<Rightarrow> copyFields keys changed (AList.update key v existing)))"

text \<open>
  The condition under which a changed layer is skipped:
  \<^verbatim>\<open>(existing.rid || changed.rid) && existing.rid !== changed.rid\<close>.
\<close>

definition ridDiffers :: "encoding \<Rightarrow> encoding \<Rightarrow> bool" where
  "ridDiffers existing changed =
     ((truthy (getProp existing ''rid'') \<or> truthy (getProp changed ''rid'')) \<and>
      getProp existing ''rid'' \<noteq> getProp changed ''rid'')"

text \<open>The loop \<^verbatim>\<open>for (const changed of newEncodingParams)\<close> for one existing layer.\<close>

fun mergeChanged :: "encoding list \<Rightarrow> encoding \<Rightarrow> encoding" where
  "mergeChanged [] existing = existing"
| "mergeChanged (changed # rest) existing =
     (if ridDiffers existing changed then mergeChanged rest existing
      else mergeChanged rest (copyFields (map fst changed) changed existing))"

text \<open>
  \<^verbatim>\<open>setEncodingParameters\<close>. The argument is the \<^verbatim>\<open>Map\<close> in insertion order (\<open>None\<close>
  when the caller passes null or undefined). \<^verbatim>\<open>sender.getParameters()\<close> reads the
  encodings of the camera's sender, \<^verbatim>\<open>sender.setParameters\<close> stores them (the browser's
  own checks are not part of the repository).
\<close>

definition setEncodingParameters :: "(string \<times> encoding) list option \<Rightarrow> state \<Rightarrow> state" where
  "setEncodingParameters encodingParamMap s =
     (case localCameraTransceiver s of
        None \<Rightarrow> s
      | Some camera \<Rightarrow>
          if direction (heap s camera) \<noteq> Sendrecv then s
          else
            (case encodingParamMap of
               None \<Rightarrow> s
             | Some m \<Rightarrow>
                 if length m = 0 then s
                 else
                   (let newEncodingParams = map snd m;
                        encodings =
                          (case senderEncodings (heap s camera) of
                             None \<Rightarrow> newEncodingParams
                           | Some old \<Rightarrow>
                               if length old = 0 then newEncodingParams
                               else map (mergeChanged newEncodingParams) old)
                    in s\<lparr>heap := (heap s)
                           (camera := (heap s camera)\<lparr>senderEncodings := Some encodings\<rparr>)\<rparr>)))"

definition reset :: "state \<Rightarrow> state" where
  "reset s = s\<lparr>localCameraTransceiver := None, localAudioTransceiver := None,
               videoSubscriptions := [], defaultMediaStream := None, peer := None\<rparr>"

definition useTransceivers :: "state \<Rightarrow> bool" where
  "useTransceivers s =
     (case peer s of
        None \<Rightarrow> False
      | Some p \<Rightarrow> if \<not> requiresUnifiedPlan s then False else getTransceiversDefined p)"

definition transceiverIsVideo :: "transceiver \<Rightarrow> bool" where
  "transceiverIsVideo t = (receiverTrack t = Some Video \<or> senderTrack t = Some Video)"

text \<open>
  \<^verbatim>\<open>this.peer.addTransceiver('video', {direction: d, ...})\<close>: a new object in the store,
  appended to the peer's transceivers. Without a peer the call would raise; it is only
  made under \<open>useTransceivers\<close>, where the peer exists.
\<close>

definition addTransceiver :: "direction \<Rightarrow> state \<Rightarrow> addr \<times> state" where
  "addTransceiver d s =
     (case peer s of
        None \<Rightarrow> (nextAddr s, s)
      | Some p \<Rightarrow>
          (let a = nextAddr s;
               t = \<lparr>mid = newMid p a, direction = d, receiverTrack = Some Video,
                    senderTrack = None, senderEncodings = None\<rparr>
           in (a, s\<lparr>heap := (heap s)(a := t), nextAddr := Suc a,
                    peer := Some (p\<lparr>transceivers := transceivers p @ [a]\<rparr>)\<rparr>)))"

text \<open>
  The inner loop of \<^verbatim>\<open>updateTransceivers\<close> over \<^verbatim>\<open>videosRemaining.entries()\<close>, for the
  transceiver \<open>t\<close> at subscription position \<open>n\<close> whose track resolves to \<open>streamId\<close>.
  The fifth argument is the index of the entry, the sixth the entries still to visit; the
  array itself is only changed by the \<^verbatim>\<open>splice\<close> that precedes \<^verbatim>\<open>break\<close>.
\<close>

fun matchLoop ::
  "streamIndex \<Rightarrow> addr \<Rightarrow> nat \<Rightarrow> nat \<Rightarrow> nat \<Rightarrow> nat list \<Rightarrow> state \<times> nat list \<Rightarrow> state \<times> nat list"
where
  "matchLoop I t n streamId index [] (s, videosRemaining) = (s, videosRemaining)"
| "matchLoop I t n streamId index (recvStreamId # rest) (s, videosRemaining) =
     (if StreamIdsInSameGroup I streamId recvStreamId then
        (let s1 = setDirection t Recvonly s;
             s2 = s1\<lparr>videoSubscriptions := assignAt (videoSubscriptions s1) n recvStreamId\<rparr>;
             s3 = s2\<lparr>streamIdToTransceiver :=
                       ((streamIdToTransceiver s2)(streamId := None))(recvStreamId \<mapsto> t)\<rparr>
         in (s3, spliceAt index videosRemaining))
      else
        matchLoop I t n streamId (Suc index) rest
          (if readAt (videoSubscriptions s) n = Some 0 then setDirection t Inactive s else s,
           videosRemaining))"

text \<open>One iteration of the loop over the existing video transceivers.\<close>

definition slotStep ::
  "streamIndex \<Rightarrow> addr \<Rightarrow> nat \<Rightarrow> state \<times> nat list \<Rightarrow> state \<times> nat list"
where
  "slotStep I t n sv =
     (let s0 = fst sv; videosRemaining = snd sv;
          s = s0\<lparr>videoSubscriptions := assignAt (videoSubscriptions s0) n 0\<rparr>
      in if direction (heap s t) \<noteq> Inactive then
           (case streamIdForTrack I (trackId (mid (heap s t))) of
              None \<Rightarrow> (s, videosRemaining)
            | Some streamId \<Rightarrow> matchLoop I t n streamId 0 videosRemaining (s, videosRemaining))
         else if direction (heap s t) = Inactive \<and> length videosRemaining > 0 then
           (case videosRemaining of
              [] \<Rightarrow> (s, videosRemaining)
            | streamId # shifted \<Rightarrow>
                (let s1 = setDirection t Recvonly s;
                     s2 = s1\<lparr>videoSubscriptions := assignAt (videoSubscriptions s1) n streamId\<rparr>;
                     s3 = s2\<lparr>streamIdToTransceiver := (streamIdToTransceiver s2)(streamId \<mapsto> t)\<rparr>
                 in (s3, shifted)))
         else if length videosRemaining = 0 then
           (let s1 = setDirection t Inactive s
            in (s1\<lparr>streamIdToTransceiver := deleteByValue t (streamIdToTransceiver s1)\<rparr>,
                videosRemaining))
         else (s, videosRemaining))"

fun slotLoop ::
  "streamIndex \<Rightarrow> addr list \<Rightarrow> nat \<Rightarrow> state \<times> nat list \<Rightarrow> state \<times> nat list"
where
  "slotLoop I [] n sv = sv"
| "slotLoop I (t # ts) n sv = slotLoop I ts (n + 1) (slotStep I t n sv)"

text \<open>The final loop: a new transceiver for every video still remaining.\<close>

fun createRemaining :: "nat list \<Rightarrow> state \<Rightarrow> state" where
  "createRemaining [] s = s"
| "createRemaining (index # rest) s =
     (let (t, s1) = addTransceiver Recvonly s;
          s2 = s1\<lparr>streamIdToTransceiver := (streamIdToTransceiver s1)(index \<mapsto> t)\<rparr>;
          s3 = s2\<lparr>videoSubscriptions := videoSubscriptions s2 @ [index]\<rparr>
      in createRemaining rest s3)"

text \<open>The video transceivers other than the local camera, in the peer's order.\<close>

definition videoSlots :: "state \<Rightarrow> addr list \<Rightarrow> addr list" where
  "videoSlots s ts =
     filter (\<lambda>t. Some t \<noteq> localCameraTransceiver s \<and> transceiverIsVideo (heap s t)) ts"

definition updateTransceivers :: "addr list \<Rightarrow> streamIndex \<Rightarrow> nat list \<Rightarrow> state \<Rightarrow> state" where
  "updateTransceivers ts I videosToReceive s =
     (let sv = slotLoop I (videoSlots s ts) 1 (s, videosToReceive)
      in createRemaining (snd sv) (fst sv))"

text \<open>
  \<^verbatim>\<open>updateVideoTransceivers\<close>. The \<^verbatim>\<open>VideoStreamIdSet\<close> is given by the array that its
  \<^verbatim>\<open>array()\<close> returns (the class is not part of the controller); \<^verbatim>\<open>clone()\<close> copies it.
  The result is the new state and the returned array.
\<close>

definition updateVideoTransceivers :: "streamIndex \<Rightarrow> nat list \<Rightarrow> state \<Rightarrow> state \<times> nat list" where
  "updateVideoTransceivers I videosToReceive s =
     (if \<not> useTransceivers s then (s, videosToReceive)
      else
        (case peer s of
           None \<Rightarrow> (s, videosToReceive)
         | Some p \<Rightarrow>
             (let ts = transceivers p;
                  s1 = s\<lparr>videoSubscriptions := [0]\<rparr>;
                  s2 = updateTransceivers ts I videosToReceive s1
              in (s2, videoSubscriptions s2))))"

section \<open>Steady states\<close>

text \<open>
  The condition under which a call of \<^verbatim>\<open>updateVideoTransceivers\<close> reproduces the entries
  \<open>vs\<close> and moves nothing. It goes through the video slots in their order, with the list
  of the desired streams that are still remaining, and reads the state only.

  A slot carries the stream \<open>v\<close> when it is \<^verbatim>\<open>recvonly\<close> and its tag resolves to a
  stream whose first entry of the same group in the remaining list is \<open>v\<close>.
\<close>

definition carries :: "streamIndex \<Rightarrow> state \<Rightarrow> addr \<Rightarrow> nat list \<Rightarrow> nat \<Rightarrow> bool" where
  "carries I s t remaining v =
     (direction (heap s t) = Recvonly \<and>
      (case streamIdForTrack I (trackId (mid (heap s t))) of
         None \<Rightarrow> False
       | Some streamId \<Rightarrow> find (StreamIdsInSameGroup I streamId) remaining = Some v))"

text \<open>
  A slot is idle when nothing is remaining, or when it is not inactive and its tag does not
  resolve.
\<close>

definition idle :: "streamIndex \<Rightarrow> state \<Rightarrow> addr \<Rightarrow> nat list \<Rightarrow> bool" where
  "idle I s t remaining =
     (remaining = [] \<or>
      (direction (heap s t) \<noteq> Inactive \<and> streamIdForTrack I (trackId (mid (heap s t))) = None))"

text \<open>
  The slots are steady for the remaining list and the entries \<open>vs\<close> when every slot
  either carries its entry, which then leaves the remaining list, or has the entry 0 and is
  idle, and nothing is remaining after the last slot.
\<close>

fun steady :: "streamIndex \<Rightarrow> state \<Rightarrow> addr list \<Rightarrow> nat list \<Rightarrow> nat list \<Rightarrow> bool" where
  "steady I s [] remaining [] = (remaining = [])"
| "steady I s (t # ts) remaining (v # vs) =
     ((carries I s t remaining v \<and> steady I s ts (remove1 v remaining) vs) \<or>
      (v = 0 \<and> idle I s t remaining \<and> steady I s ts remaining vs))"
| "steady I s [] remaining (v # vs) = False"
| "steady I s (t # ts) remaining [] = False"

text \<open>
  A state is steady for the desired streams \<open>D\<close> with the entries \<open>vs\<close> when transceivers
  are in use and its video slots are steady for \<open>D\<close> and \<open>vs\<close>.
\<close>

definition steadyFor :: "streamIndex \<Rightarrow> nat list \<Rightarrow> nat list \<Rightarrow> state \<Rightarrow> bool" where
  "steadyFor I D vs s =
     (case peer s of
        None \<Rightarrow> False
      | Some p \<Rightarrow> useTransceivers s \<and> steady I s (videoSlots s (transceivers p)) D vs)"

section \<open>Concrete controllers\<close>

text \<open>A video transceiver as \<^verbatim>\<open>addTransceiver('video', ...)\<close> makes it.\<close>

definition videoTransceiver :: "direction \<Rightarrow> string option \<Rightarrow> transceiver" where
  "videoTransceiver d m =
     \<lparr>mid = m, direction = d, receiverTrack = Some Video, senderTrack = None,
      senderEncodings = None\<rparr>"

text \<open>The browser of the examples names a new transceiver after its address.\<close>

definition exampleMid :: "addr \<Rightarrow> string option" where
  "exampleMid a = (if a = 1 then Some ''1'' else if a = 2 then Some ''2'' else None)"

text \<open>
  A controller on a unified-plan peer with the given transceivers, store and bindings; the
  local camera is the transceiver at address 0.
\<close>

definition controllerOn :: "(addr \<Rightarrow> transceiver) \<Rightarrow> addr list \<Rightarrow> (nat \<rightharpoonup> addr) \<Rightarrow> state" where
  "controllerOn h ts m =
     \<lparr>localCameraTransceiver = Some 0, localAudioTransceiver = None, videoSubscriptions = [],
      defaultMediaStream = None,
      peer = Some \<lparr>transceivers = ts, getTransceiversDefined = True, newMid = exampleMid\<rparr>,
      streamIdToTransceiver = m, requiresUnifiedPlan = True, heap = h, nextAddr = length ts\<rparr>"

text \<open>
  An index that resolves the track of mid 1 to stream 5 and the track of mid 2 to stream 9;
  every stream is a group of its own.
\<close>

definition exampleIndex :: streamIndex where
  "exampleIndex =
     \<lparr>streamIdForTrack =
        (\<lambda>tag. if tag = ''v_1'' then Some 5 else if tag = ''v_2'' then Some 9 else None),
      StreamIdsInSameGroup = (\<lambda>a b. a = b)\<rparr>"

text \<open>
  Scenario B of the specification: the camera and one receiving transceiver, bound to
  stream 5.
\<close>

definition scenarioB :: state where
  "scenarioB =
     controllerOn ((\<lambda>_. videoTransceiver Inactive None)(1 := videoTransceiver Recvonly (Some ''1'')))
       [0, 1] [5 \<mapsto> 1]"

text \<open>A controller that has no peer yet.\<close>

definition noPeer :: state where
  "noPeer = (controllerOn (\<lambda>_. videoTransceiver Inactive None) [] Map.empty)\<lparr>peer := None\<rparr>"

text \<open>A controller whose peer has the camera transceiver only.\<close>

definition cameraOnly :: state where
  "cameraOnly = controllerOn (\<lambda>_. videoTransceiver Inactive None) [0] Map.empty"

text \<open>
  The camera and one receiving transceiver whose mid the index does not know.
\<close>

definition unresolvedSlot :: state where
  "unresolvedSlot =
     controllerOn ((\<lambda>_. videoTransceiver Inactive None)(1 := videoTransceiver Recvonly (Some ''7'')))
       [0, 1] Map.empty"

text \<open>
  An index with simulcast layers: the tracks of mid 1 and of mid 2 resolve to stream 5;
  streams 5 and 7 are layers of one source.
\<close>

definition layerIndex :: streamIndex where
  "layerIndex =
     \<lparr>streamIdForTrack = (\<lambda>tag. if tag = ''v_1'' \<or> tag = ''v_2'' then Some 5 else None),
      StreamIdsInSameGroup = (\<lambda>a b. a = b \<or> (a \<in> {5, 7} \<and> b \<in> {5, 7}))\<rparr>"

text \<open>
  The camera, an inactive transceiver, and after it a receiving transceiver bound to
  stream 5.
\<close>

definition earlierInactive :: state where
  "earlierInactive =
     controllerOn
       ((\<lambda>_. videoTransceiver Inactive None)
          (1 := videoTransceiver Inactive (Some ''1''), 2 := videoTransceiver Recvonly (Some ''2'')))
       [0, 1, 2] [5 \<mapsto> 2]"

text \<open>
  Scenario A of the specification: the camera and two inactive video transceivers.
\<close>

definition scenarioA :: state where
  "scenarioA =
     controllerOn
       ((\<lambda>_. videoTransceiver Inactive None)
          (1 := videoTransceiver Inactive (Some ''1''), 2 := videoTransceiver Inactive (Some ''2'')))
       [0, 1, 2] Map.empty"

text \<open>
  The camera and two receiving transceivers in the order opposite to the order of their
  streams: the first resolves to stream 9, the second to stream 5.
\<close>

definition crossed :: state where
  "crossed =
     controllerOn
       ((\<lambda>_. videoTransceiver Inactive None)
          (1 := videoTransceiver Recvonly (Some ''2''), 2 := videoTransceiver Recvonly (Some ''1'')))
       [0, 1, 2] [9 \<mapsto> 1, 5 \<mapsto> 2]"

text \<open>
  A controller whose camera is sending two simulcast layers, and a patch for them: the
  patch for the low layer also names a codec payload type, the last entry has no rid.
\<close>

definition sendingCamera :: state where
  "sendingCamera =
     controllerOn
       ((\<lambda>_. videoTransceiver Inactive None)
          (0 := \<lparr>mid = Some ''0'', direction = Sendrecv, receiverTrack = Some Video,
                 senderTrack = Some Video,
                 senderEncodings = Some
                   [[(''rid'', Str ''low''), (''maxBitrate'', Num 100), (''codecPayloadType'', Num 96)],
                    [(''rid'', Str ''hi''), (''maxBitrate'', Num 900)]]\<rparr>))
       [0] Map.empty"

definition examplePatch :: "(string \<times> encoding) list" where
  "examplePatch =
     [(''low'', [(''rid'', Str ''low''), (''maxBitrate'', Num 200), (''codecPayloadType'', Num 100)]),
      (''hi'', [(''rid'', Str ''hi''), (''active'', Bool False)]),
      (''all'', [(''maxBitrate'', Num 50)])]"

section \<open>The subscription array that reconciliation builds\<close>

lemma setDirection_fields [simp]:
  "videoSubscriptions (setDirection t d s) = videoSubscriptions s"
  "streamIdToTransceiver (setDirection t d s) = streamIdToTransceiver s"
  "peer (setDirection t d s) = peer s"
  "nextAddr (setDirection t d s) = nextAddr s"
  "localCameraTransceiver (setDirection t d s) = localCameraTransceiver s"
  "requiresUnifiedPlan (setDirection t d s) = requiresUnifiedPlan s"
  by (simp_all add: setDirection_def)

lemma assignAt_end: "assignAt xs (length xs) v = xs @ [v]"
  by (simp add: assignAt_def)

lemma assignAt_last: "assignAt (xs @ [u]) (length xs) v = xs @ [v]"
  by (simp add: assignAt_def)

text \<open>The inner loop leaves the array alone or records one remaining video, which it removes.\<close>

lemma matchLoop_subs:
  "matchLoop I t n sid index rest (s, vr) = (s', vr') \<Longrightarrow>
     (videoSubscriptions s' = videoSubscriptions s \<and> vr' = vr) \<or>
     (\<exists>j < length rest. videoSubscriptions s' = assignAt (videoSubscriptions s) n (rest ! j)
        \<and> vr' = spliceAt (index + j) vr)"
proof (induction rest arbitrary: index s)
  case Nil
  then show ?case by simp
next
  case (Cons r rest)
  show ?case
  proof (cases "StreamIdsInSameGroup I sid r")
    case True
    with Cons.prems have "videoSubscriptions s' = assignAt (videoSubscriptions s) n r"
      and "vr' = spliceAt index vr" by (auto simp: Let_def)
    then show ?thesis by auto
  next
    case False
    let ?s1 = "if readAt (videoSubscriptions s) n = Some 0 then setDirection t Inactive s else s"
    from False Cons.prems have "matchLoop I t n sid (Suc index) rest (?s1, vr) = (s', vr')"
      by simp
    from Cons.IH[OF this] have
      "(videoSubscriptions s' = videoSubscriptions s \<and> vr' = vr) \<or>
       (\<exists>j < length rest. videoSubscriptions s' = assignAt (videoSubscriptions s) n (rest ! j)
          \<and> vr' = spliceAt (Suc index + j) vr)" by (auto split: if_splits)
    then show ?thesis
    proof
      assume "videoSubscriptions s' = videoSubscriptions s \<and> vr' = vr"
      then show ?thesis by simp
    next
      assume "\<exists>j < length rest. videoSubscriptions s' = assignAt (videoSubscriptions s) n (rest ! j)
          \<and> vr' = spliceAt (Suc index + j) vr"
      then obtain j where "j < length rest"
        "videoSubscriptions s' = assignAt (videoSubscriptions s) n (rest ! j)"
        "vr' = spliceAt (Suc index + j) vr" by blast
      then have "Suc j < length (r # rest) \<and>
          videoSubscriptions s' = assignAt (videoSubscriptions s) n ((r # rest) ! Suc j) \<and>
          vr' = spliceAt (index + Suc j) vr" by simp
      then show ?thesis by blast
    qed
  qed
qed

text \<open>
  One slot, entered with \<open>n\<close> at the end of the array: the array grows by one entry, the
  mark 0 or a remaining video that leaves the list.
\<close>

lemma slotStep_subs:
  assumes "n = length (videoSubscriptions s)" and "slotStep I t n (s, vr) = (s', vr')"
  shows "(videoSubscriptions s' = videoSubscriptions s @ [0] \<and> vr' = vr) \<or>
         (\<exists>i < length vr. videoSubscriptions s' = videoSubscriptions s @ [vr ! i] \<and>
            vr' = spliceAt i vr)"
proof -
  let ?s = "s\<lparr>videoSubscriptions := videoSubscriptions s @ [0]\<rparr>"
  show ?thesis
  proof (cases "direction (heap s t) \<noteq> Inactive")
    case True
    show ?thesis
    proof (cases "streamIdForTrack I (trackId (mid (heap s t)))")
      case None
      with True assms show ?thesis by (auto simp: slotStep_def assignAt_end)
    next
      case (Some sid)
      with True assms have "matchLoop I t n sid 0 vr (?s, vr) = (s', vr')"
        by (simp add: slotStep_def assignAt_end)
      from matchLoop_subs[OF this] assms(1) show ?thesis
        by (auto simp: assignAt_last)
    qed
  next
    case False
    show ?thesis
    proof (cases vr)
      case Nil
      with False assms show ?thesis by (auto simp: slotStep_def assignAt_end Let_def)
    next
      case (Cons v vs)
      with False assms have "videoSubscriptions s' = videoSubscriptions s @ [v]" "vr' = vs"
        by (auto simp: slotStep_def assignAt_end assignAt_last Let_def)
      with Cons have "0 < length vr \<and> videoSubscriptions s' = videoSubscriptions s @ [vr ! 0] \<and>
          vr' = spliceAt 0 vr"
        by (simp add: spliceAt_def)
      then show ?thesis by blast
    qed
  qed
qed

lemma count_spliceAt:
  assumes "i < length xs"
  shows "count_list [xs ! i] x + count_list (spliceAt i xs) x = count_list xs x"
proof -
  have "count_list xs x = count_list (take i xs @ xs ! i # drop (Suc i) xs) x"
    using id_take_nth_drop[OF assms] by simp
  then show ?thesis by (simp add: spliceAt_def)
qed

lemma distinct_count_list: "distinct xs \<Longrightarrow> x \<in> set xs \<Longrightarrow> count_list xs x = 1"
  using distinct_count_atmost_1[of xs] by (simp add: count_mset[symmetric] del: count_mset)

text \<open>
  The loop over the slots, entered with \<open>n\<close> at the end of the array: one entry per slot;
  every video other than 0 is, as often as it was remaining, either recorded or still
  remaining.
\<close>

lemma slotLoop_shape:
  "n = length (videoSubscriptions s) \<Longrightarrow> slotLoop I ts n (s, vr) = (s', vr') \<Longrightarrow>
     \<exists>vs. videoSubscriptions s' = videoSubscriptions s @ vs \<and> length vs = length ts \<and>
          (\<forall>x. x \<noteq> 0 \<longrightarrow> count_list vs x + count_list vr' x = count_list vr x) \<and>
          (\<forall>x. count_list vr' x \<le> count_list vr x)"
proof (induction ts arbitrary: n s vr)
  case Nil
  then show ?case by simp
next
  case (Cons t ts)
  obtain s1 vr1 where step: "slotStep I t n (s, vr) = (s1, vr1)"
    by (cases "slotStep I t n (s, vr)")
  from slotStep_subs[OF Cons.prems(1) step] obtain v where
    v: "videoSubscriptions s1 = videoSubscriptions s @ [v]"
       "\<forall>x. x \<noteq> 0 \<longrightarrow> count_list [v] x + count_list vr1 x = count_list vr x"
       "\<forall>x. count_list vr1 x \<le> count_list vr x"
  proof
    assume "videoSubscriptions s1 = videoSubscriptions s @ [0] \<and> vr1 = vr"
    then show ?thesis using that[of 0] by simp
  next
    assume "\<exists>i < length vr. videoSubscriptions s1 = videoSubscriptions s @ [vr ! i] \<and>
              vr1 = spliceAt i vr"
    then obtain i where i: "i < length vr"
      "videoSubscriptions s1 = videoSubscriptions s @ [vr ! i]" "vr1 = spliceAt i vr"
      by blast
    have c: "\<forall>x. count_list [vr ! i] x + count_list vr1 x = count_list vr x"
      using count_spliceAt[OF i(1)] i(3) by blast
    then have "\<forall>x. count_list vr1 x \<le> count_list vr x"
      by (metis le_add2)
    with i(2) c show ?thesis using that[of "vr ! i"] by blast
  qed
  from Cons.prems(1) v(1) have n1: "n + 1 = length (videoSubscriptions s1)" by simp
  from Cons.prems(2) step have "slotLoop I ts (n + 1) (s1, vr1) = (s', vr')" by simp
  from Cons.IH[OF n1 this] obtain vs where
    vs: "videoSubscriptions s' = videoSubscriptions s1 @ vs" "length vs = length ts"
        "\<forall>x. x \<noteq> 0 \<longrightarrow> count_list vs x + count_list vr' x = count_list vr1 x"
        "\<forall>x. count_list vr' x \<le> count_list vr1 x" by blast
  have "videoSubscriptions s' = videoSubscriptions s @ (v # vs)" using v(1) vs(1) by simp
  moreover have "length (v # vs) = length (t # ts)" using vs(2) by simp
  moreover have "\<forall>x. x \<noteq> 0 \<longrightarrow> count_list (v # vs) x + count_list vr' x = count_list vr x"
  proof (intro allI impI)
    fix x :: nat assume x: "x \<noteq> 0"
    have "count_list (v # vs) x = count_list [v] x + count_list vs x" by simp
    moreover have "count_list vs x + count_list vr' x = count_list vr1 x" using vs(3) x by blast
    moreover have "count_list [v] x + count_list vr1 x = count_list vr x" using v(2) x by blast
    ultimately show "count_list (v # vs) x + count_list vr' x = count_list vr x" by linarith
  qed
  moreover have "\<forall>x. count_list vr' x \<le> count_list vr x"
    using v(3) vs(4) by (meson le_trans)
  ultimately show ?case by blast
qed

section \<open>What reconciliation leaves alone, and the transceivers it creates\<close>

lemma matchLoop_frame:
  "matchLoop I t n sid index rest (s, vr) = (s', vr') \<Longrightarrow>
     peer s' = peer s \<and> nextAddr s' = nextAddr s \<and>
     localCameraTransceiver s' = localCameraTransceiver s \<and>
     requiresUnifiedPlan s' = requiresUnifiedPlan s"
proof (induction rest arbitrary: index s)
  case Nil
  then show ?case by simp
next
  case (Cons r rest)
  show ?case
  proof (cases "StreamIdsInSameGroup I sid r")
    case True
    with Cons.prems show ?thesis by (auto simp: Let_def)
  next
    case False
    let ?s1 = "if readAt (videoSubscriptions s) n = Some 0 then setDirection t Inactive s else s"
    from False Cons.prems have "matchLoop I t n sid (Suc index) rest (?s1, vr) = (s', vr')"
      by simp
    from Cons.IH[OF this] show ?thesis by (simp split: if_splits)
  qed
qed

lemma slotStep_frame:
  assumes "slotStep I t n (s, vr) = (s', vr')"
  shows "peer s' = peer s \<and> nextAddr s' = nextAddr s \<and>
         localCameraTransceiver s' = localCameraTransceiver s \<and>
         requiresUnifiedPlan s' = requiresUnifiedPlan s"
proof -
  let ?s = "s\<lparr>videoSubscriptions := assignAt (videoSubscriptions s) n 0\<rparr>"
  show ?thesis
  proof (cases "direction (heap s t) \<noteq> Inactive")
    case True
    show ?thesis
    proof (cases "streamIdForTrack I (trackId (mid (heap s t)))")
      case None
      with True assms show ?thesis by (auto simp: slotStep_def)
    next
      case (Some sid)
      with True assms have "matchLoop I t n sid 0 vr (?s, vr) = (s', vr')"
        by (simp add: slotStep_def)
      from matchLoop_frame[OF this] show ?thesis by simp
    qed
  next
    case False
    with assms show ?thesis
      by (cases vr) (auto simp: slotStep_def Let_def)
  qed
qed

lemma slotLoop_frame:
  "slotLoop I ts n (s, vr) = (s', vr') \<Longrightarrow>
     peer s' = peer s \<and> nextAddr s' = nextAddr s \<and>
     localCameraTransceiver s' = localCameraTransceiver s \<and>
     requiresUnifiedPlan s' = requiresUnifiedPlan s"
proof (induction ts arbitrary: n s vr)
  case Nil
  then show ?case by simp
next
  case (Cons t ts)
  obtain s1 vr1 where step: "slotStep I t n (s, vr) = (s1, vr1)" by (cases "slotStep I t n (s, vr)")
  with Cons.prems have "slotLoop I ts (n + 1) (s1, vr1) = (s', vr')" by simp
  from Cons.IH[OF this] slotStep_frame[OF step] show ?case by simp
qed

lemma createRemaining_peer:
  "peer s = Some p \<Longrightarrow>
     peer (createRemaining vr s) =
       Some (p\<lparr>transceivers := transceivers p @ [nextAddr s ..< nextAddr s + length vr]\<rparr>)
     \<and> nextAddr (createRemaining vr s) = nextAddr s + length vr"
proof (induction vr arbitrary: s p)
  case Nil
  then show ?case by simp
next
  case (Cons v vr)
  let ?p1 = "p\<lparr>transceivers := transceivers p @ [nextAddr s]\<rparr>"
  obtain a s1 where a: "addTransceiver Recvonly s = (a, s1)" by (cases "addTransceiver Recvonly s")
  with Cons.prems have s1: "peer s1 = Some ?p1" "nextAddr s1 = Suc (nextAddr s)"
    by (auto simp: addTransceiver_def Let_def)
  let ?s3 = "s1\<lparr>streamIdToTransceiver := (streamIdToTransceiver s1)(v \<mapsto> a),
                 videoSubscriptions := videoSubscriptions s1 @ [v]\<rparr>"
  have eq: "createRemaining (v # vr) s = createRemaining vr ?s3" using a by simp
  have "peer ?s3 = Some ?p1" using s1 by simp
  from Cons.IH[OF this] s1(2) have
    "peer (createRemaining vr ?s3) =
       Some (?p1\<lparr>transceivers := transceivers ?p1 @ [Suc (nextAddr s) ..< Suc (nextAddr s) + length vr]\<rparr>)"
    "nextAddr (createRemaining vr ?s3) = Suc (nextAddr s) + length vr" by simp_all
  moreover have "[nextAddr s ..< nextAddr s + length (v # vr)] =
     nextAddr s # [Suc (nextAddr s) ..< Suc (nextAddr s) + length vr]"
    using upt_conv_Cons[of "nextAddr s" "nextAddr s + length (v # vr)"] by simp
  ultimately show ?case using eq by simp
qed

lemma createRemaining_old:
  "a < nextAddr s \<Longrightarrow> heap (createRemaining vr s) a = heap s a"
proof (induction vr arbitrary: s)
  case Nil
  then show ?case by simp
next
  case (Cons v vr)
  obtain b s1 where b: "addTransceiver Recvonly s = (b, s1)" by (cases "addTransceiver Recvonly s")
  with Cons.prems have s1: "heap s1 a = heap s a" "a < nextAddr s1"
    by (auto simp: addTransceiver_def Let_def split: option.splits)
  let ?s3 = "s1\<lparr>streamIdToTransceiver := (streamIdToTransceiver s1)(v \<mapsto> b),
                 videoSubscriptions := videoSubscriptions s1 @ [v]\<rparr>"
  have "a < nextAddr ?s3" using s1 by simp
  from Cons.IH[OF this] s1 b show ?case by simp
qed

lemma createRemaining_map_other:
  "k \<notin> set vr \<Longrightarrow> streamIdToTransceiver (createRemaining vr s) k = streamIdToTransceiver s k"
proof (induction vr arbitrary: s)
  case Nil
  then show ?case by simp
next
  case (Cons v vr)
  obtain b s1 where b: "addTransceiver Recvonly s = (b, s1)" by (cases "addTransceiver Recvonly s")
  then have s1: "streamIdToTransceiver s1 = streamIdToTransceiver s"
    by (auto simp: addTransceiver_def Let_def split: option.splits)
  let ?s3 = "s1\<lparr>streamIdToTransceiver := (streamIdToTransceiver s1)(v \<mapsto> b),
                 videoSubscriptions := videoSubscriptions s1 @ [v]\<rparr>"
  from Cons.prems have "k \<notin> set vr" "k \<noteq> v" by auto
  from Cons.IH[OF this(1), of ?s3] this(2) s1 b show ?case by simp
qed

lemma createRemaining_new:
  "peer s = Some p \<Longrightarrow> j < length vr \<Longrightarrow> distinct vr \<Longrightarrow>
     direction (heap (createRemaining vr s) (nextAddr s + j)) = Recvonly \<and>
     transceiverIsVideo (heap (createRemaining vr s) (nextAddr s + j)) \<and>
     streamIdToTransceiver (createRemaining vr s) (vr ! j) = Some (nextAddr s + j)"
proof (induction vr arbitrary: s p j)
  case Nil
  then show ?case by simp
next
  case (Cons v vr)
  let ?p1 = "p\<lparr>transceivers := transceivers p @ [nextAddr s]\<rparr>"
  obtain a s1 where a: "addTransceiver Recvonly s = (a, s1)" by (cases "addTransceiver Recvonly s")
  with Cons.prems(1) have s1: "peer s1 = Some ?p1" "nextAddr s1 = Suc (nextAddr s)" "a = nextAddr s"
    "direction (heap s1 a) = Recvonly" "transceiverIsVideo (heap s1 a)"
    by (auto simp: addTransceiver_def Let_def transceiverIsVideo_def)
  let ?s3 = "s1\<lparr>streamIdToTransceiver := (streamIdToTransceiver s1)(v \<mapsto> a),
                 videoSubscriptions := videoSubscriptions s1 @ [v]\<rparr>"
  have eq: "createRemaining (v # vr) s = createRemaining vr ?s3" using a by simp
  have p3: "peer ?s3 = Some ?p1" using s1 by simp
  show ?case
  proof (cases j)
    case 0
    have "a < nextAddr ?s3" using s1 by simp
    from createRemaining_old[OF this, of vr] have "heap (createRemaining vr ?s3) a = heap s1 a" by simp
    moreover have "streamIdToTransceiver (createRemaining vr ?s3) v = Some a"
      using createRemaining_map_other[of v vr ?s3] Cons.prems(3) by simp
    ultimately show ?thesis using 0 eq s1 by simp
  next
    case (Suc j')
    with Cons.prems have "j' < length vr" "distinct vr" by simp_all
    from Cons.IH[OF p3 this] s1(2) Suc eq show ?thesis by simp
  qed
qed

text \<open>The array that \<^verbatim>\<open>updateVideoTransceivers\<close> returns when transceivers are in use.\<close>

lemma createRemaining_subs:
  "videoSubscriptions (createRemaining vr s) = videoSubscriptions s @ vr"
proof (induction vr arbitrary: s)
  case Nil
  then show ?case by simp
next
  case (Cons v vr)
  obtain a s1 where a: "addTransceiver Recvonly s = (a, s1)"
    by (cases "addTransceiver Recvonly s")
  then have "videoSubscriptions s1 = videoSubscriptions s"
    by (auto simp: addTransceiver_def Let_def split: option.splits)
  with a show ?case by (simp add: Cons.IH)
qed

lemma updateVideoTransceivers_run:
  assumes "useTransceivers s"
  obtains p s2 vr' vs where
    "peer s = Some p"
    "slotLoop I (videoSlots s (transceivers p)) 1 (s\<lparr>videoSubscriptions := [0]\<rparr>, D) = (s2, vr')"
    "updateVideoTransceivers I D s = (createRemaining vr' s2, 0 # vs @ vr')"
    "videoSubscriptions s2 = 0 # vs"
    "length vs = length (videoSlots s (transceivers p))"
    "\<forall>x. x \<noteq> 0 \<longrightarrow> count_list vs x + count_list vr' x = count_list D x"
    "\<forall>x. count_list vr' x \<le> count_list D x"
proof -
  from assms obtain p where p: "peer s = Some p"
    by (auto simp: useTransceivers_def split: option.splits)
  let ?s1 = "s\<lparr>videoSubscriptions := [0]\<rparr>"
  have slots: "videoSlots ?s1 (transceivers p) = videoSlots s (transceivers p)"
    by (simp add: videoSlots_def)
  obtain s2 vr' where loop: "slotLoop I (videoSlots s (transceivers p)) 1 (?s1, D) = (s2, vr')"
    by (cases "slotLoop I (videoSlots s (transceivers p)) 1 (?s1, D)")
  have "1 = length (videoSubscriptions ?s1)" by simp
  from slotLoop_shape[OF this loop] obtain vs where
    vs: "videoSubscriptions s2 = [0] @ vs" "length vs = length (videoSlots s (transceivers p))"
        "\<forall>x. x \<noteq> 0 \<longrightarrow> count_list vs x + count_list vr' x = count_list D x"
        "\<forall>x. count_list vr' x \<le> count_list D x"
    by auto
  have "updateVideoTransceivers I D s =
          (createRemaining vr' s2, videoSubscriptions (createRemaining vr' s2))"
    using assms p loop slots
    by (simp add: updateVideoTransceivers_def updateTransceivers_def Let_def)
  then have "updateVideoTransceivers I D s = (createRemaining vr' s2, 0 # vs @ vr')"
    using vs(1) by (simp add: createRemaining_subs)
  with p loop vs show ?thesis using that by simp
qed

section \<open>Rebinding a slot to another layer of its source\<close>

lemma slotLoop_append:
  "slotLoop I (xs @ ys) n sv = slotLoop I ys (n + length xs) (slotLoop I xs n sv)"
  by (induction xs arbitrary: n sv) simp_all

text \<open>A slot that is active and cannot take the only remaining video.\<close>

lemma slotStep_pass:
  assumes "n = length (videoSubscriptions s)"
    and "direction (heap s u) \<noteq> Inactive"
    and "\<forall>z. streamIdForTrack I (trackId (mid (heap s u))) = Some z \<longrightarrow> \<not> StreamIdsInSameGroup I z y"
  shows "\<exists>s'. slotStep I u n (s, [y]) = (s', [y]) \<and>
           videoSubscriptions s' = videoSubscriptions s @ [0] \<and>
           streamIdToTransceiver s' = streamIdToTransceiver s \<and>
           peer s' = peer s \<and> nextAddr s' = nextAddr s \<and>
           (\<forall>v. v \<noteq> u \<longrightarrow> heap s' v = heap s v) \<and>
           (\<forall>v. mid (heap s' v) = mid (heap s v))"
proof (cases "streamIdForTrack I (trackId (mid (heap s u)))")
  case None
  with assms show ?thesis by (simp add: slotStep_def assignAt_end)
next
  case (Some z)
  with assms(3) have "\<not> StreamIdsInSameGroup I z y" by simp
  with Some assms(1,2) show ?thesis
    by (simp add: slotStep_def assignAt_end readAt_def setDirection_def)
qed

lemma slotLoop_pass:
  "n = length (videoSubscriptions s) \<Longrightarrow> distinct pre \<Longrightarrow>
   \<forall>u \<in> set pre. direction (heap s u) \<noteq> Inactive \<and>
      (\<forall>z. streamIdForTrack I (trackId (mid (heap s u))) = Some z \<longrightarrow> \<not> StreamIdsInSameGroup I z y) \<Longrightarrow>
   \<exists>s'. slotLoop I pre n (s, [y]) = (s', [y]) \<and>
           videoSubscriptions s' = videoSubscriptions s @ replicate (length pre) 0 \<and>
           streamIdToTransceiver s' = streamIdToTransceiver s \<and>
           peer s' = peer s \<and> nextAddr s' = nextAddr s \<and>
           (\<forall>v. v \<notin> set pre \<longrightarrow> heap s' v = heap s v) \<and>
           (\<forall>v. mid (heap s' v) = mid (heap s v))"
proof (induction pre arbitrary: n s)
  case Nil
  then show ?case by simp
next
  case (Cons u pre)
  from Cons.prems(3) have u: "direction (heap s u) \<noteq> Inactive"
    "\<forall>z. streamIdForTrack I (trackId (mid (heap s u))) = Some z \<longrightarrow> \<not> StreamIdsInSameGroup I z y"
    by simp_all
  from slotStep_pass[OF Cons.prems(1) u] obtain s1 where
    s1: "slotStep I u n (s, [y]) = (s1, [y])"
        "videoSubscriptions s1 = videoSubscriptions s @ [0]"
        "streamIdToTransceiver s1 = streamIdToTransceiver s"
        "peer s1 = peer s" "nextAddr s1 = nextAddr s"
        "\<forall>v. v \<noteq> u \<longrightarrow> heap s1 v = heap s v"
        "\<forall>v. mid (heap s1 v) = mid (heap s v)" by blast
  have n1: "n + 1 = length (videoSubscriptions s1)" using Cons.prems(1) s1(2) by simp
  have d1: "distinct pre" and unot: "u \<notin> set pre" using Cons.prems(2) by simp_all
  have c1: "\<forall>w \<in> set pre. direction (heap s1 w) \<noteq> Inactive \<and>
      (\<forall>z. streamIdForTrack I (trackId (mid (heap s1 w))) = Some z \<longrightarrow> \<not> StreamIdsInSameGroup I z y)"
  proof
    fix w assume w: "w \<in> set pre"
    with unot have "w \<noteq> u" by auto
    with s1(6) have "heap s1 w = heap s w" by simp
    with Cons.prems(3) w show "direction (heap s1 w) \<noteq> Inactive \<and>
      (\<forall>z. streamIdForTrack I (trackId (mid (heap s1 w))) = Some z \<longrightarrow> \<not> StreamIdsInSameGroup I z y)"
      by simp
  qed
  from Cons.IH[OF n1 d1 c1] obtain s' where
    s': "slotLoop I pre (n + 1) (s1, [y]) = (s', [y])"
        "videoSubscriptions s' = videoSubscriptions s1 @ replicate (length pre) 0"
        "streamIdToTransceiver s' = streamIdToTransceiver s1"
        "peer s' = peer s1" "nextAddr s' = nextAddr s1"
        "\<forall>v. v \<notin> set pre \<longrightarrow> heap s' v = heap s1 v"
        "\<forall>v. mid (heap s' v) = mid (heap s1 v)" by blast
  have "slotLoop I (u # pre) n (s, [y]) = (s', [y])" using s1(1) s'(1) by simp
  moreover have "videoSubscriptions s' = videoSubscriptions s @ replicate (length (u # pre)) 0"
    using s1(2) s'(2) by simp
  moreover have "\<forall>v. v \<notin> set (u # pre) \<longrightarrow> heap s' v = heap s v"
    using s1(6) s'(6) by simp
  moreover have "\<forall>v. mid (heap s' v) = mid (heap s v)" using s1(7) s'(7) by simp
  ultimately show ?case using s1(3,4,5) s'(3,4,5) by simp
qed

text \<open>The slot that takes the video.\<close>

lemma slotStep_rebind:
  assumes "n = length (videoSubscriptions s)"
    and "direction (heap s t) \<noteq> Inactive"
    and "streamIdForTrack I (trackId (mid (heap s t))) = Some x"
    and "StreamIdsInSameGroup I x y"
  shows "\<exists>s'. slotStep I t n (s, [y]) = (s', []) \<and>
           videoSubscriptions s' = videoSubscriptions s @ [y] \<and>
           streamIdToTransceiver s' = ((streamIdToTransceiver s)(x := None))(y \<mapsto> t) \<and>
           peer s' = peer s \<and> nextAddr s' = nextAddr s \<and>
           direction (heap s' t) = Recvonly"
  using assms
  by (simp add: slotStep_def assignAt_end assignAt_last setDirection_def spliceAt_def Let_def)

text \<open>The slots after it, with nothing remaining.\<close>

lemma slotStep_idle:
  assumes "n = length (videoSubscriptions s)"
  shows "\<exists>s'. slotStep I u n (s, []) = (s', []) \<and>
           videoSubscriptions s' = videoSubscriptions s @ [0] \<and>
           peer s' = peer s \<and> nextAddr s' = nextAddr s \<and>
           (\<forall>v. direction (heap s' v) = direction (heap s v)) \<and>
           (\<forall>k. streamIdToTransceiver s k = None \<longrightarrow> streamIdToTransceiver s' k = None) \<and>
           (\<forall>k a. streamIdToTransceiver s k = Some a \<longrightarrow> a \<noteq> u \<longrightarrow> streamIdToTransceiver s' k = Some a)"
proof (cases "direction (heap s u) \<noteq> Inactive")
  case True
  with assms show ?thesis
    by (cases "streamIdForTrack I (trackId (mid (heap s u)))")
       (simp_all add: slotStep_def assignAt_end)
next
  case False
  with assms show ?thesis
    by (simp add: slotStep_def assignAt_end setDirection_def deleteByValue_def Let_def)
qed

lemma slotLoop_idle:
  "n = length (videoSubscriptions s) \<Longrightarrow>
   \<exists>s'. slotLoop I post n (s, []) = (s', []) \<and>
           videoSubscriptions s' = videoSubscriptions s @ replicate (length post) 0 \<and>
           peer s' = peer s \<and> nextAddr s' = nextAddr s \<and>
           (\<forall>v. direction (heap s' v) = direction (heap s v)) \<and>
           (\<forall>k. streamIdToTransceiver s k = None \<longrightarrow> streamIdToTransceiver s' k = None) \<and>
           (\<forall>k a. streamIdToTransceiver s k = Some a \<longrightarrow> a \<notin> set post \<longrightarrow> streamIdToTransceiver s' k = Some a)"
proof (induction post arbitrary: n s)
  case Nil
  then show ?case by simp
next
  case (Cons u post)
  from slotStep_idle[OF Cons.prems, of I u] obtain s1 where
    s1: "slotStep I u n (s, []) = (s1, [])"
        "videoSubscriptions s1 = videoSubscriptions s @ [0]"
        "peer s1 = peer s" "nextAddr s1 = nextAddr s"
        "\<forall>v. direction (heap s1 v) = direction (heap s v)"
        "\<forall>k. streamIdToTransceiver s k = None \<longrightarrow> streamIdToTransceiver s1 k = None"
        "\<forall>k a. streamIdToTransceiver s k = Some a \<longrightarrow> a \<noteq> u \<longrightarrow> streamIdToTransceiver s1 k = Some a"
    by blast
  have n1: "n + 1 = length (videoSubscriptions s1)" using Cons.prems s1(2) by simp
  from Cons.IH[OF n1] obtain s' where
    s': "slotLoop I post (n + 1) (s1, []) = (s', [])"
        "videoSubscriptions s' = videoSubscriptions s1 @ replicate (length post) 0"
        "peer s' = peer s1" "nextAddr s' = nextAddr s1"
        "\<forall>v. direction (heap s' v) = direction (heap s1 v)"
        "\<forall>k. streamIdToTransceiver s1 k = None \<longrightarrow> streamIdToTransceiver s' k = None"
        "\<forall>k a. streamIdToTransceiver s1 k = Some a \<longrightarrow> a \<notin> set post \<longrightarrow> streamIdToTransceiver s' k = Some a"
    by blast
  have "slotLoop I (u # post) n (s, []) = (s', [])" using s1(1) s'(1) by simp
  moreover have "videoSubscriptions s' = videoSubscriptions s @ replicate (length (u # post)) 0"
    using s1(2) s'(2) by (simp add: replicate_append_same)
  moreover have "\<forall>k a. streamIdToTransceiver s k = Some a \<longrightarrow> a \<notin> set (u # post) \<longrightarrow>
      streamIdToTransceiver s' k = Some a"
    using s1(7) s'(7) by simp
  ultimately show ?case using s1(3,4,5,6) s'(3,4,5,6) by simp
qed

section \<open>Reconciliation of a steady state\<close>

text \<open>The inner loop when the first video of the slot's group is \<open>w\<close>.\<close>

lemma matchLoop_found:
  "\<forall>d \<in> set pre. \<not> StreamIdsInSameGroup I sid d \<Longrightarrow> StreamIdsInSameGroup I sid w \<Longrightarrow>
   \<exists>s'. matchLoop I t n sid index (pre @ w # post) (s, vr) = (s', spliceAt (index + length pre) vr) \<and>
        videoSubscriptions s' = assignAt (videoSubscriptions s) n w \<and>
        direction (heap s' t) = Recvonly \<and>
        (\<forall>a. a \<noteq> t \<longrightarrow> heap s' a = heap s a) \<and>
        mid (heap s' t) = mid (heap s t) \<and>
        peer s' = peer s \<and> nextAddr s' = nextAddr s"
proof (induction pre arbitrary: index s)
  case Nil
  then show ?case by (simp add: Let_def setDirection_def)
next
  case (Cons d pre)
  let ?s1 = "if readAt (videoSubscriptions s) n = Some 0 then setDirection t Inactive s else s"
  from Cons.prems have nd: "\<not> StreamIdsInSameGroup I sid d"
    and rest: "\<forall>d \<in> set pre. \<not> StreamIdsInSameGroup I sid d" by simp_all
  from Cons.IH[OF rest Cons.prems(2), of "Suc index" ?s1] obtain s' where
    s': "matchLoop I t n sid (Suc index) (pre @ w # post) (?s1, vr) =
           (s', spliceAt (Suc index + length pre) vr)"
        "videoSubscriptions s' = assignAt (videoSubscriptions ?s1) n w"
        "direction (heap s' t) = Recvonly"
        "\<forall>a. a \<noteq> t \<longrightarrow> heap s' a = heap ?s1 a"
        "mid (heap s' t) = mid (heap ?s1 t)"
        "peer s' = peer ?s1" "nextAddr s' = nextAddr ?s1" by blast
  have "matchLoop I t n sid index ((d # pre) @ w # post) (s, vr) =
          (s', spliceAt (index + length (d # pre)) vr)"
    using nd s'(1) by simp
  moreover have "videoSubscriptions s' = assignAt (videoSubscriptions s) n w"
    using s'(2) by simp
  moreover have "\<forall>a. a \<noteq> t \<longrightarrow> heap s' a = heap s a"
    using s'(4) by (simp add: setDirection_def)
  moreover have "mid (heap s' t) = mid (heap s t)"
    using s'(5) by (simp add: setDirection_def)
  moreover have "peer s' = peer s" "nextAddr s' = nextAddr s" using s'(6,7) by simp_all
  ultimately show ?case using s'(3) by blast
qed

lemma find_split:
  "find P xs = Some v \<Longrightarrow>
     \<exists>pre post. xs = pre @ v # post \<and> (\<forall>d \<in> set pre. \<not> P d) \<and> P v \<and> remove1 v xs = pre @ post"
proof (induction xs)
  case Nil
  then show ?case by simp
next
  case (Cons x xs)
  show ?case
  proof (cases "P x")
    case True
    with Cons.prems have "x = v" by simp
    with True have "x # xs = [] @ v # xs \<and> (\<forall>d \<in> set []. \<not> P d) \<and> P v \<and>
        remove1 v (x # xs) = [] @ xs" by simp
    then show ?thesis by blast
  next
    case False
    with Cons.prems have "find P xs = Some v" by simp
    from Cons.IH[OF this] obtain pre post where
      pp: "xs = pre @ v # post" "\<forall>d \<in> set pre. \<not> P d" "P v" "remove1 v xs = pre @ post"
      by blast
    from False pp(3) have "x \<noteq> v" by auto
    with False pp have "x # xs = (x # pre) @ v # post \<and> (\<forall>d \<in> set (x # pre). \<not> P d) \<and> P v \<and>
        remove1 v (x # xs) = (x # pre) @ post" by simp
    then show ?thesis by blast
  qed
qed

lemma carries_cong:
  "direction (heap s' t) = direction (heap s t) \<Longrightarrow> mid (heap s' t) = mid (heap s t) \<Longrightarrow>
     carries I s' t vr v = carries I s t vr v"
  by (simp add: carries_def)

lemma idle_cong:
  "direction (heap s' t) = direction (heap s t) \<Longrightarrow> mid (heap s' t) = mid (heap s t) \<Longrightarrow>
     idle I s' t vr = idle I s t vr"
  by (simp add: idle_def)

lemma steady_cong:
  "\<forall>t \<in> set ts. direction (heap s' t) = direction (heap s t) \<and> mid (heap s' t) = mid (heap s t) \<Longrightarrow>
     steady I s' ts vr vs = steady I s ts vr vs"
proof (induction I s ts vr vs rule: steady.induct)
  case (2 I s t ts vr v vs)
  from "2.prems" have t: "direction (heap s' t) = direction (heap s t)" "mid (heap s' t) = mid (heap s t)"
    and rest: "\<forall>t \<in> set ts. direction (heap s' t) = direction (heap s t) \<and> mid (heap s' t) = mid (heap s t)"
    by simp_all
  show ?case
    using "2.IH"(1)[OF rest] "2.IH"(2)[OF rest] carries_cong[OF t] idle_cong[OF t]
    by simp
qed simp_all





section \<open>Steadiness is necessary\<close>

text \<open>
  On a peer that lists each transceiver once, a call that returns the entries \<open>vs\<close>,
  leaves every direction as it was and creates no transceiver was made in a state that is
  steady for \<open>vs\<close>.
\<close>

lemma matchLoop_heap:
  "matchLoop I t n sid index rest (s, vr) = (s', vr') \<Longrightarrow>
     (\<forall>a. a \<noteq> t \<longrightarrow> heap s' a = heap s a) \<and> (\<forall>a. mid (heap s' a) = mid (heap s a))"
proof (induction rest arbitrary: index s)
  case Nil
  then show ?case by simp
next
  case (Cons r rest)
  show ?case
  proof (cases "StreamIdsInSameGroup I sid r")
    case True
    with Cons.prems show ?thesis by (auto simp: Let_def setDirection_def)
  next
    case False
    let ?s1 = "if readAt (videoSubscriptions s) n = Some 0 then setDirection t Inactive s else s"
    from False Cons.prems have "matchLoop I t n sid (Suc index) rest (?s1, vr) = (s', vr')"
      by simp
    from Cons.IH[OF this] show ?thesis by (simp add: setDirection_def split: if_splits)
  qed
qed

lemma slotStep_heap:
  assumes "slotStep I t n (s, vr) = (s', vr')"
  shows "(\<forall>a. a \<noteq> t \<longrightarrow> heap s' a = heap s a) \<and> (\<forall>a. mid (heap s' a) = mid (heap s a))"
proof -
  let ?s = "s\<lparr>videoSubscriptions := assignAt (videoSubscriptions s) n 0\<rparr>"
  show ?thesis
  proof (cases "direction (heap s t) \<noteq> Inactive")
    case True
    show ?thesis
    proof (cases "streamIdForTrack I (trackId (mid (heap s t)))")
      case None
      with True assms show ?thesis by (auto simp: slotStep_def)
    next
      case (Some sid)
      with True assms have "matchLoop I t n sid 0 vr (?s, vr) = (s', vr')"
        by (simp add: slotStep_def)
      from matchLoop_heap[OF this] show ?thesis by simp
    qed
  next
    case False
    with assms show ?thesis
      by (cases vr) (auto simp: slotStep_def Let_def setDirection_def)
  qed
qed

lemma slotLoop_heap:
  "slotLoop I ts n (s, vr) = (s', vr') \<Longrightarrow>
     (\<forall>a. a \<notin> set ts \<longrightarrow> heap s' a = heap s a) \<and> (\<forall>a. mid (heap s' a) = mid (heap s a))"
proof (induction ts arbitrary: n s vr)
  case Nil
  then show ?case by simp
next
  case (Cons t ts)
  obtain s1 vr1 where step: "slotStep I t n (s, vr) = (s1, vr1)" by (cases "slotStep I t n (s, vr)")
  with Cons.prems have "slotLoop I ts (n + 1) (s1, vr1) = (s', vr')" by simp
  from Cons.IH[OF this] slotStep_heap[OF step] show ?case by simp
qed

lemma matchLoop_nomatch:
  "\<forall>d \<in> set rest. \<not> StreamIdsInSameGroup I sid d \<Longrightarrow> rest \<noteq> [] \<Longrightarrow>
   readAt (videoSubscriptions s) n = Some 0 \<Longrightarrow>
     \<exists>s'. matchLoop I t n sid index rest (s, vr) = (s', vr) \<and>
          direction (heap s' t) = Inactive \<and> videoSubscriptions s' = videoSubscriptions s"
proof (induction rest arbitrary: index s)
  case Nil
  then show ?case by simp
next
  case (Cons r rest)
  let ?s1 = "setDirection t Inactive s"
  from Cons.prems have step: "matchLoop I t n sid index (r # rest) (s, vr) =
      matchLoop I t n sid (Suc index) rest (?s1, vr)" by simp
  show ?case
  proof (cases rest)
    case Nil
    with step show ?thesis by (simp add: setDirection_def)
  next
    case (Cons r' rest')
    then have ne: "rest \<noteq> []" by simp
    from Cons.prems(1) have nm: "\<forall>d \<in> set rest. \<not> StreamIdsInSameGroup I sid d" by simp
    have rd: "readAt (videoSubscriptions ?s1) n = Some 0" using Cons.prems(3) by simp
    from Cons.IH[OF nm ne rd, of "Suc index"] step show ?thesis by simp
  qed
qed

lemma find_None_all: "find P xs = None \<Longrightarrow> \<forall>d \<in> set xs. \<not> P d"
  by (simp add: find_None_iff)

text \<open>A step that leaves the direction of its slot as it was.\<close>

lemma slotStep_preserving:
  assumes n: "n = length (videoSubscriptions s)"
    and step: "slotStep I t n (s, vr) = (s1, vr1)"
    and sub: "videoSubscriptions s1 = videoSubscriptions s @ [v]"
    and dir: "direction (heap s1 t) = direction (heap s t)"
  shows "(carries I s t vr v \<and> vr1 = remove1 v vr) \<or> (v = 0 \<and> idle I s t vr \<and> vr1 = vr)"
proof (cases "direction (heap s t) \<noteq> Inactive")
  case True
  show ?thesis
  proof (cases "streamIdForTrack I (trackId (mid (heap s t)))")
    case None
    with True n step sub show ?thesis by (auto simp: slotStep_def assignAt_end idle_def)
  next
    case (Some sid)
    let ?s = "s\<lparr>videoSubscriptions := videoSubscriptions s @ [0]\<rparr>"
    from True Some n step have ml: "matchLoop I t n sid 0 vr (?s, vr) = (s1, vr1)"
      by (simp add: slotStep_def assignAt_end)
    show ?thesis
    proof (cases "find (StreamIdsInSameGroup I sid) vr")
      case None
      note nomatch = find_None_all[OF None]
      show ?thesis
      proof (cases "vr = []")
        case True
        with ml sub show ?thesis by (auto simp: idle_def)
      next
        case False
        have rd: "readAt (videoSubscriptions ?s) n = Some 0" using n by (simp add: readAt_def)
        from matchLoop_nomatch[OF nomatch False rd, of t 0 vr] ml
        have "direction (heap s1 t) = Inactive" by auto
        with dir True show ?thesis by simp
      qed
    next
      case (Some w)
      from find_split[OF Some] obtain pre post where
        vr: "vr = pre @ w # post" and pre: "\<forall>d \<in> set pre. \<not> StreamIdsInSameGroup I sid d"
        and hit: "StreamIdsInSameGroup I sid w" and rm: "remove1 w vr = pre @ post" by blast
      from matchLoop_found[OF pre hit, of t n 0 post ?s vr] ml vr obtain
        r: "vr1 = spliceAt (length pre) vr"
           "videoSubscriptions s1 = assignAt (videoSubscriptions ?s) n w"
           "direction (heap s1 t) = Recvonly" by auto
      have "spliceAt (length pre) vr = remove1 w vr" by (simp add: vr rm[unfolded vr] spliceAt_def)
      moreover have "v = w" using r(2) sub n by (simp add: assignAt_last)
      moreover have "direction (heap s t) = Recvonly" using r(3) dir by simp
      ultimately show ?thesis
        using r(1) Some \<open>streamIdForTrack I (trackId (mid (heap s t))) = Some sid\<close>
        by (simp add: carries_def)
    qed
  qed
next
  case False
  show ?thesis
  proof (cases vr)
    case Nil
    with False n step sub show ?thesis by (auto simp: slotStep_def assignAt_end Let_def idle_def)
  next
    case (Cons x xs)
    with False n step have "direction (heap s1 t) = Recvonly"
      by (auto simp: slotStep_def Let_def setDirection_def)
    with dir False show ?thesis by simp
  qed
qed

lemma slotLoop_necessary:
  "distinct ts \<Longrightarrow> n = length (videoSubscriptions s) \<Longrightarrow>
   slotLoop I ts n (s, vr) = (s', []) \<Longrightarrow> videoSubscriptions s' = videoSubscriptions s @ vs \<Longrightarrow>
   \<forall>t \<in> set ts. direction (heap s' t) = direction (heap s t) \<Longrightarrow>
     steady I s ts vr vs"
proof (induction ts arbitrary: n s vr vs)
  case Nil
  then show ?case by simp
next
  case (Cons t ts)
  obtain s1 vr1 where step: "slotStep I t n (s, vr) = (s1, vr1)" by (cases "slotStep I t n (s, vr)")
  with Cons.prems(3) have loop: "slotLoop I ts (n + 1) (s1, vr1) = (s', [])" by simp
  from slotStep_subs[OF Cons.prems(2) step] obtain v where
    v: "videoSubscriptions s1 = videoSubscriptions s @ [v]" by blast
  then have n1: "n + 1 = length (videoSubscriptions s1)" using Cons.prems(2) by simp
  from slotLoop_shape[OF n1 loop] obtain vs' where
    vs': "videoSubscriptions s' = videoSubscriptions s1 @ vs'" by blast
  with v Cons.prems(4) have vs: "vs = v # vs'" by simp
  from Cons.prems(1) have d: "distinct ts" "t \<notin> set ts" by simp_all
  note h1 = slotStep_heap[OF step]
  note h2 = slotLoop_heap[OF loop]
  have dirt: "direction (heap s1 t) = direction (heap s t)"
    using h2 d(2) Cons.prems(5) by simp
  have rest: "\<forall>u \<in> set ts. direction (heap s' u) = direction (heap s1 u)"
  proof
    fix u assume u: "u \<in> set ts"
    then have "u \<noteq> t" using d(2) by auto
    then have "heap s1 u = heap s u" using h1 by simp
    then show "direction (heap s' u) = direction (heap s1 u)" using Cons.prems(5) u by simp
  qed
  from Cons.IH[OF d(1) n1 loop vs' rest] have "steady I s1 ts vr1 vs'" .
  moreover have "\<forall>u \<in> set ts. direction (heap s1 u) = direction (heap s u) \<and>
      mid (heap s1 u) = mid (heap s u)"
    using h1 d(2) by auto
  ultimately have st: "steady I s ts vr1 vs'" using steady_cong[of ts s1 s I vr1 vs'] by simp
  from slotStep_preserving[OF Cons.prems(2) step v dirt] st vs show ?case by auto
qed

lemma steady_necessary:
  assumes use: "useTransceivers s" and p: "peer s = Some p" and dist: "distinct (transceivers p)"
    and arr: "snd (updateVideoTransceivers I D s) = 0 # vs"
    and dir: "\<forall>a. direction (heap (fst (updateVideoTransceivers I D s)) a) = direction (heap s a)"
    and same: "peer (fst (updateVideoTransceivers I D s)) = peer s"
  shows "steadyFor I D vs s"
proof -
  let ?s0 = "s\<lparr>videoSubscriptions := [0]\<rparr>"
  from updateVideoTransceivers_run[OF use, of I D] p obtain s2 vr' ws where
    r: "slotLoop I (videoSlots s (transceivers p)) 1 (?s0, D) = (s2, vr')"
       "updateVideoTransceivers I D s = (createRemaining vr' s2, 0 # ws @ vr')"
       "videoSubscriptions s2 = 0 # ws"
    by (metis option.inject)
  from slotLoop_frame[OF r(1)] p have p2: "peer s2 = Some p" by simp
  from createRemaining_peer[OF p2, of vr'] same r(2) p
  have "p\<lparr>transceivers := transceivers p @ [nextAddr s2 ..< nextAddr s2 + length vr']\<rparr> = p" by simp
  from arg_cong[OF this, of transceivers]
  have "transceivers p @ [nextAddr s2 ..< nextAddr s2 + length vr'] = transceivers p" by simp
  then have e: "vr' = []" by auto
  with r(2) arr have ws: "ws = vs" by simp
  have dslots: "distinct (videoSlots s (transceivers p))" using dist by (simp add: videoSlots_def)
  have n0: "1 = length (videoSubscriptions ?s0)" by simp
  have sub: "videoSubscriptions s2 = videoSubscriptions ?s0 @ vs" using r(3) ws by simp
  have d2: "\<forall>t \<in> set (videoSlots s (transceivers p)). direction (heap s2 t) = direction (heap ?s0 t)"
    using dir r(2) e by simp
  from slotLoop_necessary[OF dslots n0 r(1)[unfolded e] sub d2]
  have "steady I ?s0 (videoSlots s (transceivers p)) D vs" .
  then have "steady I s (videoSlots s (transceivers p)) D vs"
    using steady_cong[of "videoSlots s (transceivers p)" ?s0 s I D vs] by simp
  with use p show ?thesis by (simp add: steadyFor_def)
qed

section \<open>Merging encoding parameters\<close>

text \<open>The loop over the property names, seen from one property.\<close>

lemma copyFields_lookup:
  "map_of (copyFields keys changed e) k =
     (if k \<in> set keys \<and> k \<noteq> ''rid'' \<and> k \<noteq> ''codecPayloadType'' \<and> map_of changed k \<noteq> None
      then map_of changed k else map_of e k)"
proof (induction keys arbitrary: e)
  case Nil
  then show ?case by simp
next
  case (Cons key keys)
  show ?case
  proof (cases "key = ''rid'' \<or> key = ''codecPayloadType''")
    case True
    then show ?thesis using Cons.IH[of e] by auto
  next
    case False
    show ?thesis
    proof (cases "map_of changed key")
      case None
      with False show ?thesis using Cons.IH[of e] by auto
    next
      case (Some v)
      with False show ?thesis using Cons.IH[of "AList.update key v e"]
        by (auto simp: update_conv')
    qed
  qed
qed

lemma copyFields_all:
  "map_of (copyFields (map fst changed) changed e) k =
     (if k \<noteq> ''rid'' \<and> k \<noteq> ''codecPayloadType'' \<and> map_of changed k \<noteq> None
      then map_of changed k else map_of e k)"
  by (auto simp: copyFields_lookup map_of_eq_None_iff)

lemma ridDiffers_cong:
  "map_of e' ''rid'' = map_of e ''rid'' \<Longrightarrow> ridDiffers e' c = ridDiffers e c"
  by (simp add: ridDiffers_def getProp_def)

lemma mergeChanged_immutable:
  "k = ''rid'' \<or> k = ''codecPayloadType'' \<Longrightarrow> map_of (mergeChanged cs e) k = map_of e k"
proof (induction cs arbitrary: e)
  case Nil
  then show ?case by simp
next
  case (Cons c cs)
  have "map_of (copyFields (map fst c) c e) k = map_of e k"
    using Cons.prems by (auto simp: copyFields_all)
  with Cons show ?case by simp
qed

lemma mergeChanged_append:
  "mergeChanged (xs @ ys) e = mergeChanged ys (mergeChanged xs e)"
  by (induction xs arbitrary: e) simp_all

lemma mergeChanged_untouched:
  "\<forall>c \<in> set cs. \<not> ridDiffers e c \<longrightarrow> map_of c k = None \<Longrightarrow>
     map_of (mergeChanged cs e) k = map_of e k"
proof (induction cs arbitrary: e)
  case Nil
  then show ?case by simp
next
  case (Cons c cs)
  show ?case
  proof (cases "ridDiffers e c")
    case True
    with Cons show ?thesis by simp
  next
    case False
    let ?e1 = "copyFields (map fst c) c e"
    from False Cons.prems have none: "map_of c k = None" by simp
    have rid: "map_of ?e1 ''rid'' = map_of e ''rid''" by (simp add: copyFields_all)
    have "\<forall>c' \<in> set cs. \<not> ridDiffers ?e1 c' \<longrightarrow> map_of c' k = None"
      using Cons.prems ridDiffers_cong[OF rid] by simp
    from Cons.IH[OF this] have "map_of (mergeChanged cs ?e1) k = map_of ?e1 k" .
    also have "\<dots> = map_of e k" using none by (simp add: copyFields_all)
    finally show ?thesis using False by simp
  qed
qed

lemma mergeChanged_snoc:
  "mergeChanged (xs @ [c]) e =
     (if ridDiffers e c then mergeChanged xs e
      else copyFields (map fst c) c (mergeChanged xs e))"
proof -
  have "map_of (mergeChanged xs e) ''rid'' = map_of e ''rid''"
    by (rule mergeChanged_immutable) simp
  from ridDiffers_cong[OF this] show ?thesis by (simp add: mergeChanged_append)
qed

lemma mergeChanged_at:
  assumes j: "j < length cs"
    and rid: "getProp e ''rid'' = getProp (cs ! j) ''rid''"
    and key: "key \<noteq> ''rid''" "key \<noteq> ''codecPayloadType''"
    and v: "map_of (cs ! j) key = Some v"
  shows "map_of (mergeChanged (take (Suc j) cs) e) key = Some v"
proof -
  have nd: "\<not> ridDiffers e (cs ! j)" using rid by (simp add: ridDiffers_def)
  have "take (Suc j) cs = take j cs @ [cs ! j]" using j by (rule take_Suc_conv_app_nth)
  then have "mergeChanged (take (Suc j) cs) e =
      copyFields (map fst (cs ! j)) (cs ! j) (mergeChanged (take j cs) e)"
    using nd by (simp only: mergeChanged_snoc if_False)
  then show ?thesis using key v by (simp only: copyFields_all) simp
qed

lemma mergeChanged_final:
  assumes j: "j < length cs"
    and rid: "getProp e ''rid'' = getProp (cs ! j) ''rid''"
    and key: "key \<noteq> ''rid''" "key \<noteq> ''codecPayloadType''"
    and v: "map_of (cs ! j) key = Some v"
    and later: "\<forall>j'. j < j' \<and> j' < length cs \<and> \<not> ridDiffers e (cs ! j') \<longrightarrow>
                  map_of (cs ! j') key = None"
  shows "map_of (mergeChanged cs e) key = Some v"
proof -
  let ?e1 = "mergeChanged (take (Suc j) cs) e"
  have same1: "map_of ?e1 ''rid'' = map_of e ''rid''"
    by (rule mergeChanged_immutable) simp
  have "\<forall>c \<in> set (drop (Suc j) cs). \<not> ridDiffers ?e1 c \<longrightarrow> map_of c key = None"
  proof
    fix c assume "c \<in> set (drop (Suc j) cs)"
    then obtain i where i: "i < length (drop (Suc j) cs)" "c = drop (Suc j) cs ! i"
      by (metis in_set_conv_nth)
    from i(1) have lt: "Suc j + i < length cs" by simp
    then have c: "c = cs ! (Suc j + i)" using i(2) by simp
    have "j < Suc j + i" by simp
    with later lt have "\<not> ridDiffers e (cs ! (Suc j + i)) \<longrightarrow> map_of (cs ! (Suc j + i)) key = None"
      by blast
    then show "\<not> ridDiffers ?e1 c \<longrightarrow> map_of c key = None"
      unfolding c ridDiffers_cong[OF same1] .
  qed
  from mergeChanged_untouched[OF this]
  have "map_of (mergeChanged (drop (Suc j) cs) ?e1) key = map_of ?e1 key" .
  moreover have "mergeChanged (take (Suc j) cs @ drop (Suc j) cs) e =
      mergeChanged (drop (Suc j) cs) ?e1"
    by (rule mergeChanged_append)
  then have "mergeChanged cs e = mergeChanged (drop (Suc j) cs) ?e1"
    by (simp only: append_take_drop_id)
  ultimately show ?thesis using mergeChanged_at[OF j rid key v] by simp
qed


lemma setEncodingParameters_merged:
  assumes "localCameraTransceiver s = Some c" and "direction (heap s c) = Sendrecv"
    and "m \<noteq> []" and "senderEncodings (heap s c) = Some old" and "old \<noteq> []"
  shows "senderEncodings (heap (setEncodingParameters (Some m) s) c) =
           Some (map (mergeChanged (map snd m)) old)"
  using assms by (simp add: setEncodingParameters_def Let_def)

text \<open>The equations that evaluate a run of the controller on a concrete state.\<close>

lemmas run_defs =
  updateVideoTransceivers_def useTransceivers_def updateTransceivers_def videoSlots_def
  transceiverIsVideo_def slotStep_def assignAt_def readAt_def spliceAt_def deleteByValue_def
  trackId_def setDirection_def addTransceiver_def reset_def Let_def


lemmas example_defs =
  sendingCamera_def examplePatch_def scenarioA_def crossed_def scenarioB_def noPeer_def cameraOnly_def unresolvedSlot_def earlierInactive_def controllerOn_def
  videoTransceiver_def exampleIndex_def layerIndex_def exampleMid_def

section \<open>The claims\<close>

text \<open>
  C4 (camera sentinel). Whenever transceivers are in use, the array returned by
  \<^verbatim>\<open>updateVideoTransceivers\<close> is not empty and its entry at index 0 is 0, whatever the
  desired set, the stream index and the state of the transceivers.
\<close>

theorem camera_sentinel:
  assumes "useTransceivers s"
  shows "snd (updateVideoTransceivers I D s) \<noteq> [] \<and>
         readAt (snd (updateVideoTransceivers I D s)) 0 = Some 0"
proof -
  from updateVideoTransceivers_run[OF assms, of I D] obtain vs vr' where
    "snd (updateVideoTransceivers I D s) = 0 # vs @ vr'" by (metis snd_conv)
  then show ?thesis by (simp add: readAt_def)
qed

theorem camera_sentinel_witness:
  "useTransceivers scenarioB \<and>
   snd (updateVideoTransceivers exampleIndex [9] scenarioB) \<noteq> [] \<and>
   readAt (snd (updateVideoTransceivers exampleIndex [9] scenarioB)) 0 = Some 0"
proof -
  have h: "useTransceivers scenarioB"
    by (simp add: useTransceivers_def scenarioB_def controllerOn_def)
  from camera_sentinel[OF h, of exampleIndex "[9]"] h show ?thesis by simp
qed

text \<open>
  C1 (completeness). Whenever transceivers are in use and the desired set is a set of
  stream ids (its array has no duplicates and does not hold the reserved id 0), the
  returned array is the sentinel 0, one entry for every existing video slot, and then the
  desired ids that no slot took, in their order. Every desired id occurs exactly once in
  the array. Every appended id has a transceiver of its own, created by this call as
  \<^verbatim>\<open>recvonly\<close>, appended to the peer and bound to the id in the map.
\<close>

theorem updateVideoTransceivers_complete:
  assumes "useTransceivers s" and "distinct D" and "0 \<notin> set D"
  shows "\<exists>p slots appended.
           peer s = Some p \<and>
           snd (updateVideoTransceivers I D s) = 0 # slots @ appended \<and>
           length slots = length (videoSlots s (transceivers p)) \<and>
           (\<forall>x \<in> set D. count_list (snd (updateVideoTransceivers I D s)) x = 1) \<and>
           map_option transceivers (peer (fst (updateVideoTransceivers I D s))) =
             Some (transceivers p @ [nextAddr s ..< nextAddr s + length appended]) \<and>
           (\<forall>j < length appended.
              direction (heap (fst (updateVideoTransceivers I D s)) (nextAddr s + j)) = Recvonly \<and>
              streamIdToTransceiver (fst (updateVideoTransceivers I D s)) (appended ! j) =
                Some (nextAddr s + j))"
proof -
  from updateVideoTransceivers_run[OF assms(1), of I D] obtain p s2 vr' vs where
    r: "peer s = Some p"
       "slotLoop I (videoSlots s (transceivers p)) 1 (s\<lparr>videoSubscriptions := [0]\<rparr>, D) = (s2, vr')"
       "updateVideoTransceivers I D s = (createRemaining vr' s2, 0 # vs @ vr')"
       "length vs = length (videoSlots s (transceivers p))"
       "\<forall>x. x \<noteq> 0 \<longrightarrow> count_list vs x + count_list vr' x = count_list D x"
       "\<forall>x. count_list vr' x \<le> count_list D x"
    by metis
  from slotLoop_frame[OF r(2)] r(1) have s2: "peer s2 = Some p" "nextAddr s2 = nextAddr s"
    by simp_all
  have once: "\<forall>x \<in> set D. count_list (snd (updateVideoTransceivers I D s)) x = 1"
  proof
    fix x assume x: "x \<in> set D"
    with assms(3) have x0: "x \<noteq> 0" by metis
    have "count_list (snd (updateVideoTransceivers I D s)) x = count_list vs x + count_list vr' x"
      using r(3) x0 by simp
    also have "\<dots> = count_list D x" using r(5) x0 by blast
    also have "\<dots> = 1" using distinct_count_list[OF assms(2) x] .
    finally show "count_list (snd (updateVideoTransceivers I D s)) x = 1" .
  qed
  have "\<forall>x. count (mset D) x \<le> 1" using assms(2) by (simp add: distinct_count_atmost_1)
  then have "\<forall>x. count (mset vr') x \<le> 1" using r(6) by (metis count_mset le_trans)
  then have dist: "distinct vr'"
    by (metis count_mset count_list_0_iff distinct_count_atmost_1 le_antisym not_less_eq_eq
        le_zero_eq nat_le_linear One_nat_def)
  have peer': "map_option transceivers (peer (fst (updateVideoTransceivers I D s))) =
      Some (transceivers p @ [nextAddr s ..< nextAddr s + length vr'])"
    using createRemaining_peer[OF s2(1), of vr'] s2(2) r(3) by simp
  have new: "\<forall>j < length vr'.
      direction (heap (fst (updateVideoTransceivers I D s)) (nextAddr s + j)) = Recvonly \<and>
      streamIdToTransceiver (fst (updateVideoTransceivers I D s)) (vr' ! j) = Some (nextAddr s + j)"
    using createRemaining_new[OF s2(1) _ dist] s2(2) r(3) by simp
  from r(1) r(3) r(4) once peer' new show ?thesis
    by (intro exI[of _ p] exI[of _ vs] exI[of _ vr']) simp
qed

theorem updateVideoTransceivers_complete_witness:
  "useTransceivers scenarioB \<and> distinct [5, 9 :: nat] \<and> 0 \<notin> set [5, 9 :: nat] \<and>
   snd (updateVideoTransceivers exampleIndex [5, 9] scenarioB) = [0, 5, 9] \<and>
   count_list (snd (updateVideoTransceivers exampleIndex [5, 9] scenarioB)) 5 = 1 \<and>
   count_list (snd (updateVideoTransceivers exampleIndex [5, 9] scenarioB)) 9 = 1"
proof -
  have h: "useTransceivers scenarioB"
    by (simp add: useTransceivers_def scenarioB_def controllerOn_def)
  have d: "distinct [5, 9 :: nat]" "0 \<notin> set [5, 9 :: nat]" by simp_all
  from updateVideoTransceivers_complete[OF h d, of exampleIndex]
  have "\<forall>x \<in> set [5, 9]. count_list (snd (updateVideoTransceivers exampleIndex [5, 9] scenarioB)) x = 1"
    by blast
  moreover have "snd (updateVideoTransceivers exampleIndex [5, 9] scenarioB) = [0, 5, 9]"
    by (simp add: run_defs example_defs)
  ultimately show ?thesis using h by simp
qed

text \<open>
  C9 (no transport). When there is no peer, or the browser does not require unified plan,
  or the peer has no \<^verbatim>\<open>getTransceivers\<close>, then \<open>useTransceivers\<close> is false and
  \<^verbatim>\<open>updateVideoTransceivers\<close> returns the array of the desired set as it is and changes
  nothing in the state.
\<close>

theorem no_transport_passthrough:
  assumes "case peer s of None \<Rightarrow> True
           | Some p \<Rightarrow> \<not> requiresUnifiedPlan s \<or> \<not> getTransceiversDefined p"
  shows "\<not> useTransceivers s \<and> updateVideoTransceivers I D s = (s, D)"
  using assms by (auto simp: useTransceivers_def updateVideoTransceivers_def split: option.splits)

theorem no_transport_passthrough_witness:
  "peer noPeer = None \<and> \<not> useTransceivers noPeer \<and>
   updateVideoTransceivers exampleIndex [5, 9] noPeer = (noPeer, [5, 9])"
proof -
  have h: "peer noPeer = None" by (simp add: noPeer_def)
  then have "case peer noPeer of None \<Rightarrow> True
      | Some p \<Rightarrow> \<not> requiresUnifiedPlan noPeer \<or> \<not> getTransceiversDefined p" by simp
  from no_transport_passthrough[OF this, of exampleIndex "[5, 9]"] h show ?thesis by simp
qed

text \<open>
  C3 (scenario B). The controller has the camera and one other video transceiver, which is
  \<^verbatim>\<open>recvonly\<close>, resolves to stream 5 and is bound to 5 in the map. With an empty
  desired set \<^verbatim>\<open>updateVideoTransceivers\<close> returns \<open>[0, 0]\<close>, but the transceiver
  is still \<^verbatim>\<open>recvonly\<close> and 5 is still bound to it: a transceiver that is not inactive
  takes the first branch, whose loop over the empty list of remaining videos does nothing,
  and never reaches the branch that toggles off and removes the binding.
\<close>

theorem scenarioB_stays_bound:
  "videoSlots scenarioB [0, 1] = [1] \<and>
   direction (heap scenarioB 1) = Recvonly \<and>
   streamIdForTrack exampleIndex (trackId (mid (heap scenarioB 1))) = Some 5 \<and>
   streamIdToTransceiver scenarioB 5 = Some 1 \<and>
   snd (updateVideoTransceivers exampleIndex [] scenarioB) = [0, 0] \<and>
   direction (heap (fst (updateVideoTransceivers exampleIndex [] scenarioB)) 1) = Recvonly \<and>
   streamIdToTransceiver (fst (updateVideoTransceivers exampleIndex [] scenarioB)) 5 = Some 1"
  by (simp add: run_defs example_defs)

text \<open>
  C2 (no orphan bindings). From a controller with the camera only, a first call with the
  desired set \<open>{5}\<close> creates the transceiver at address 1 and binds 5 to it. A second call
  with the empty desired set leaves 5 in the map, although 5 is not desired any more.
\<close>

theorem orphan_binding_survives:
  "snd (updateVideoTransceivers exampleIndex [5] cameraOnly) = [0, 5] \<and>
   streamIdToTransceiver (fst (updateVideoTransceivers exampleIndex [5] cameraOnly)) 5 = Some 1 \<and>
   snd (updateVideoTransceivers exampleIndex []
          (fst (updateVideoTransceivers exampleIndex [5] cameraOnly))) = [0, 0] \<and>
   streamIdToTransceiver
     (fst (updateVideoTransceivers exampleIndex []
             (fst (updateVideoTransceivers exampleIndex [5] cameraOnly)))) 5 = Some 1 \<and>
   5 \<notin> set ([] :: nat list)"
  by (simp add: run_defs example_defs)

text \<open>
  C5 (resolution miss). A \<^verbatim>\<open>recvonly\<close> transceiver whose track the index cannot resolve
  gets 0 at its position and no error is raised, but its direction is not changed: it is
  still \<^verbatim>\<open>recvonly\<close> after the call, with an empty desired set as well as with the
  desired set \<open>{9}\<close> (for which a new transceiver is created).
\<close>

theorem unresolved_slot_stays_active:
  "direction (heap unresolvedSlot 1) = Recvonly \<and>
   streamIdForTrack exampleIndex (trackId (mid (heap unresolvedSlot 1))) = None \<and>
   snd (updateVideoTransceivers exampleIndex [] unresolvedSlot) = [0, 0] \<and>
   direction (heap (fst (updateVideoTransceivers exampleIndex [] unresolvedSlot)) 1) = Recvonly \<and>
   snd (updateVideoTransceivers exampleIndex [9] unresolvedSlot) = [0, 0, 9] \<and>
   direction (heap (fst (updateVideoTransceivers exampleIndex [9] unresolvedSlot)) 1) = Recvonly"
  by (simp add: run_defs example_defs)

text \<open>
  C6 (reset). \<^verbatim>\<open>reset\<close> empties the subscription array, forgets the peer and the local
  transceivers and touches no transceiver object, but it leaves the map of bindings as it
  is: after the reset of scenario B, stream 5 is still bound.
\<close>

theorem reset_keeps_bindings:
  "videoSubscriptions (reset s) = [] \<and> peer (reset s) = None \<and> heap (reset s) = heap s \<and>
   streamIdToTransceiver (reset s) = streamIdToTransceiver s \<and>
   streamIdToTransceiver (reset scenarioB) 5 = Some 1"
  by (simp add: reset_def example_defs)




text \<open>
  C7 (minimal churn), as the claim states it: a slot bound to stream 5 whose tag resolves
  to 5, the desired set \<open>{7}\<close>, and 5 and 7 in the same group. With an inactive video
  slot before it the claim fails: the earlier slot takes stream 7 first, 7 is recorded at
  index 1 and bound to the earlier slot, and the slot of stream 5 keeps its binding.
\<close>

theorem earlier_slot_takes_stream:
  "videoSlots earlierInactive [0, 1, 2] = [1, 2] \<and>
   direction (heap earlierInactive 2) = Recvonly \<and>
   streamIdForTrack layerIndex (trackId (mid (heap earlierInactive 2))) = Some 5 \<and>
   streamIdToTransceiver earlierInactive 5 = Some 2 \<and>
   StreamIdsInSameGroup layerIndex 5 7 \<and>
   snd (updateVideoTransceivers layerIndex [7] earlierInactive) = [0, 7, 0] \<and>
   readAt (snd (updateVideoTransceivers layerIndex [7] earlierInactive)) 2 \<noteq> Some 7 \<and>
   streamIdToTransceiver (fst (updateVideoTransceivers layerIndex [7] earlierInactive)) 7 = Some 1 \<and>
   streamIdToTransceiver (fst (updateVideoTransceivers layerIndex [7] earlierInactive)) 5 = Some 2"
  by (simp add: run_defs example_defs)

text \<open>
  C7, amended. Let the peer list each transceiver once, let \<open>t\<close> be a video slot that is
  not inactive and whose tag resolves to \<open>x\<close>, let the desired set be \<open>{y}\<close> with
  \<open>x\<close> and \<open>y\<close> in the same group, and let no video slot before \<open>t\<close> take
  \<open>y\<close>: each of them is not inactive, and its tag does not resolve or resolves to a
  stream that is not in the same group as \<open>y\<close>. Then \<open>t\<close> is rebound to \<open>y\<close>:
  \<open>y\<close> is recorded at the position of \<open>t\<close> and 0 at every other position, \<open>t\<close> is
  \<^verbatim>\<open>recvonly\<close>, the map binds \<open>y\<close> to \<open>t\<close> and no longer binds \<open>x\<close> (when
  \<open>x \<noteq> y\<close>), and no transceiver is created.
\<close>

theorem rebind_same_slot:
  assumes use: "useTransceivers s" and p: "peer s = Some p"
    and dist: "distinct (transceivers p)"
    and slots: "videoSlots s (transceivers p) = pre @ t # post"
    and act: "direction (heap s t) \<noteq> Inactive"
    and res: "streamIdForTrack I (trackId (mid (heap s t))) = Some x"
    and grp: "StreamIdsInSameGroup I x y"
    and pre: "\<forall>u \<in> set pre. direction (heap s u) \<noteq> Inactive \<and>
               (\<forall>z. streamIdForTrack I (trackId (mid (heap s u))) = Some z \<longrightarrow>
                    \<not> StreamIdsInSameGroup I z y)"
  shows "snd (updateVideoTransceivers I [y] s) =
           0 # replicate (length pre) 0 @ y # replicate (length post) 0 \<and>
         readAt (snd (updateVideoTransceivers I [y] s)) (Suc (length pre)) = Some y \<and>
         direction (heap (fst (updateVideoTransceivers I [y] s)) t) = Recvonly \<and>
         streamIdToTransceiver (fst (updateVideoTransceivers I [y] s)) y = Some t \<and>
         (x \<noteq> y \<longrightarrow> streamIdToTransceiver (fst (updateVideoTransceivers I [y] s)) x = None) \<and>
         peer (fst (updateVideoTransceivers I [y] s)) = peer s \<and>
         nextAddr (fst (updateVideoTransceivers I [y] s)) = nextAddr s"
proof -
  let ?s0 = "s\<lparr>videoSubscriptions := [0]\<rparr>"
  have "distinct (videoSlots s (transceivers p))" using dist by (simp add: videoSlots_def)
  with slots have d: "distinct pre" "t \<notin> set pre" "t \<notin> set post" by simp_all
  have n0: "1 = length (videoSubscriptions ?s0)" by simp
  have pre0: "\<forall>u \<in> set pre. direction (heap ?s0 u) \<noteq> Inactive \<and>
               (\<forall>z. streamIdForTrack I (trackId (mid (heap ?s0 u))) = Some z \<longrightarrow>
                    \<not> StreamIdsInSameGroup I z y)" using pre by simp
  from slotLoop_pass[OF n0 d(1) pre0] obtain s1 where
    s1: "slotLoop I pre 1 (?s0, [y]) = (s1, [y])"
        "videoSubscriptions s1 = 0 # replicate (length pre) 0"
        "streamIdToTransceiver s1 = streamIdToTransceiver s"
        "peer s1 = peer s" "nextAddr s1 = nextAddr s"
        "\<forall>v. v \<notin> set pre \<longrightarrow> heap s1 v = heap s v" by auto
  have n1: "1 + length pre = length (videoSubscriptions s1)" using s1(2) by simp
  have t1: "heap s1 t = heap s t" using s1(6) d(2) by simp
  from slotStep_rebind[OF n1, of t I x y] act res grp t1 obtain s2 where
    s2: "slotStep I t (1 + length pre) (s1, [y]) = (s2, [])"
        "videoSubscriptions s2 = videoSubscriptions s1 @ [y]"
        "streamIdToTransceiver s2 = ((streamIdToTransceiver s1)(x := None))(y \<mapsto> t)"
        "peer s2 = peer s1" "nextAddr s2 = nextAddr s1"
        "direction (heap s2 t) = Recvonly" by auto
  have n2: "1 + length pre + 1 = length (videoSubscriptions s2)" using s2(2) n1 by simp
  from slotLoop_idle[OF n2, of I post] obtain s3 where
    s3: "slotLoop I post (1 + length pre + 1) (s2, []) = (s3, [])"
        "videoSubscriptions s3 = videoSubscriptions s2 @ replicate (length post) 0"
        "peer s3 = peer s2" "nextAddr s3 = nextAddr s2"
        "\<forall>v. direction (heap s3 v) = direction (heap s2 v)"
        "\<forall>k. streamIdToTransceiver s2 k = None \<longrightarrow> streamIdToTransceiver s3 k = None"
        "\<forall>k a. streamIdToTransceiver s2 k = Some a \<longrightarrow> a \<notin> set post \<longrightarrow>
               streamIdToTransceiver s3 k = Some a" by blast
  have loop: "slotLoop I (pre @ t # post) 1 (?s0, [y]) = (s3, [])"
    using s1(1) s2(1) s3(1) by (simp add: slotLoop_append)
  have slots0: "videoSlots ?s0 (transceivers p) = pre @ t # post"
    using slots by (simp add: videoSlots_def)
  have run: "updateVideoTransceivers I [y] s = (s3, videoSubscriptions s3)"
    using use p loop slots0
    by (simp add: updateVideoTransceivers_def updateTransceivers_def Let_def)
  have subs: "videoSubscriptions s3 = 0 # replicate (length pre) 0 @ y # replicate (length post) 0"
    using s1(2) s2(2) s3(2) by simp
  have "readAt (videoSubscriptions s3) (Suc (length pre)) = Some y"
    by (simp add: subs readAt_def nth_append)
  moreover have "direction (heap s3 t) = Recvonly" using s3(5) s2(6) by simp
  moreover have "streamIdToTransceiver s3 y = Some t" using s3(7) s2(3) d(3) by simp
  moreover have "x \<noteq> y \<longrightarrow> streamIdToTransceiver s3 x = None" using s3(6) s2(3) by simp
  moreover have "peer s3 = peer s" "nextAddr s3 = nextAddr s"
    using s1(4,5) s2(4,5) s3(3,4) by simp_all
  ultimately show ?thesis using run subs by simp
qed

theorem rebind_same_slot_witness:
  "useTransceivers scenarioB \<and>
   videoSlots scenarioB [0, 1] = [] @ 1 # [] \<and>
   direction (heap scenarioB 1) \<noteq> Inactive \<and>
   streamIdForTrack layerIndex (trackId (mid (heap scenarioB 1))) = Some 5 \<and>
   StreamIdsInSameGroup layerIndex 5 7 \<and>
   snd (updateVideoTransceivers layerIndex [7] scenarioB) = [0, 7] \<and>
   direction (heap (fst (updateVideoTransceivers layerIndex [7] scenarioB)) 1) = Recvonly \<and>
   streamIdToTransceiver (fst (updateVideoTransceivers layerIndex [7] scenarioB)) 7 = Some 1 \<and>
   streamIdToTransceiver (fst (updateVideoTransceivers layerIndex [7] scenarioB)) 5 = None \<and>
   peer (fst (updateVideoTransceivers layerIndex [7] scenarioB)) = peer scenarioB"
proof -
  let ?p = "\<lparr>transceivers = [0, 1], getTransceiversDefined = True, newMid = exampleMid\<rparr>"
  have use: "useTransceivers scenarioB" by (simp add: run_defs example_defs)
  have p: "peer scenarioB = Some ?p" by (simp add: example_defs)
  have dist: "distinct (transceivers ?p)" by simp
  have slots: "videoSlots scenarioB (transceivers ?p) = [] @ 1 # []"
    by (simp add: run_defs example_defs)
  have act: "direction (heap scenarioB 1) \<noteq> Inactive" by (simp add: example_defs)
  have res: "streamIdForTrack layerIndex (trackId (mid (heap scenarioB 1))) = Some 5"
    by (simp add: run_defs example_defs)
  have grp: "StreamIdsInSameGroup layerIndex 5 7" by (simp add: example_defs)
  have pre: "\<forall>u \<in> set []. direction (heap scenarioB u) \<noteq> Inactive \<and>
               (\<forall>z. streamIdForTrack layerIndex (trackId (mid (heap scenarioB u))) = Some z \<longrightarrow>
                    \<not> StreamIdsInSameGroup layerIndex z 7)" by simp
  from rebind_same_slot[OF use p dist slots act res grp pre] use slots act res grp
  show ?thesis by simp
qed

text \<open>
  C10 (encoding parameters). Without a camera transceiver, with a camera that is not
  \<^verbatim>\<open>sendrecv\<close>, or with a missing or empty patch map, \<^verbatim>\<open>setEncodingParameters\<close>
  changes nothing. Otherwise, when the sender has encodings, it keeps their number and,
  for every existing layer, the \<^verbatim>\<open>rid\<close> and \<^verbatim>\<open>codecPayloadType\<close> properties; and for
  every changed layer with the same rid (or none on both sides) and every other property
  that the changed layer provides, the existing layer holds the provided value once that
  changed layer has been applied, and still holds it in the end unless a later changed
  layer that is applied to the same existing layer provides the property again.
\<close>

theorem setEncodingParameters_merge:
  "((localCameraTransceiver s = None \<or>
     (\<exists>c. localCameraTransceiver s = Some c \<and> direction (heap s c) \<noteq> Sendrecv) \<or>
     pm = None \<or> pm = Some []) \<longrightarrow> setEncodingParameters pm s = s) \<and>
   (localCameraTransceiver s = Some c \<and> direction (heap s c) = Sendrecv \<and>
    pm = Some m \<and> m \<noteq> [] \<and> senderEncodings (heap s c) = Some old \<and> old \<noteq> [] \<longrightarrow>
      (\<exists>new. senderEncodings (heap (setEncodingParameters pm s) c) = Some new \<and>
         length new = length old \<and>
         (\<forall>i < length old.
            map_of (new ! i) ''rid'' = map_of (old ! i) ''rid'' \<and>
            map_of (new ! i) ''codecPayloadType'' = map_of (old ! i) ''codecPayloadType'' \<and>
            (\<forall>j < length m. \<forall>key v.
               getProp (old ! i) ''rid'' = getProp (snd (m ! j)) ''rid'' \<and>
               key \<noteq> ''rid'' \<and> key \<noteq> ''codecPayloadType'' \<and>
               map_of (snd (m ! j)) key = Some v \<longrightarrow>
                 map_of (mergeChanged (map snd (take (Suc j) m)) (old ! i)) key = Some v \<and>
                 ((\<forall>j'. j < j' \<and> j' < length m \<and> \<not> ridDiffers (old ! i) (snd (m ! j')) \<longrightarrow>
                        map_of (snd (m ! j')) key = None) \<longrightarrow>
                  map_of (new ! i) key = Some v)))))"
proof (intro conjI impI)
  assume "localCameraTransceiver s = None \<or>
     (\<exists>c. localCameraTransceiver s = Some c \<and> direction (heap s c) \<noteq> Sendrecv) \<or>
     pm = None \<or> pm = Some []"
  then show "setEncodingParameters pm s = s"
    by (auto simp: setEncodingParameters_def split: option.splits)
next
  assume a: "localCameraTransceiver s = Some c \<and> direction (heap s c) = Sendrecv \<and>
    pm = Some m \<and> m \<noteq> [] \<and> senderEncodings (heap s c) = Some old \<and> old \<noteq> []"
  let ?cs = "map snd m"
  let ?new = "map (mergeChanged ?cs) old"
  have new: "senderEncodings (heap (setEncodingParameters pm s) c) = Some ?new"
    using a setEncodingParameters_merged[of s c m old] by simp
  have layer: "\<forall>i < length old.
            map_of (?new ! i) ''rid'' = map_of (old ! i) ''rid'' \<and>
            map_of (?new ! i) ''codecPayloadType'' = map_of (old ! i) ''codecPayloadType'' \<and>
            (\<forall>j < length m. \<forall>key v.
               getProp (old ! i) ''rid'' = getProp (snd (m ! j)) ''rid'' \<and>
               key \<noteq> ''rid'' \<and> key \<noteq> ''codecPayloadType'' \<and>
               map_of (snd (m ! j)) key = Some v \<longrightarrow>
                 map_of (mergeChanged (map snd (take (Suc j) m)) (old ! i)) key = Some v \<and>
                 ((\<forall>j'. j < j' \<and> j' < length m \<and> \<not> ridDiffers (old ! i) (snd (m ! j')) \<longrightarrow>
                        map_of (snd (m ! j')) key = None) \<longrightarrow>
                  map_of (?new ! i) key = Some v))"
  proof (intro allI impI conjI)
    fix i assume i: "i < length old"
    show "map_of (?new ! i) ''rid'' = map_of (old ! i) ''rid''"
      using i by (simp add: mergeChanged_immutable)
    show "map_of (?new ! i) ''codecPayloadType'' = map_of (old ! i) ''codecPayloadType''"
      using i by (simp add: mergeChanged_immutable)
  next
    fix i j key v
    assume i: "i < length old" and j: "j < length m"
      and h: "getProp (old ! i) ''rid'' = getProp (snd (m ! j)) ''rid'' \<and>
               key \<noteq> ''rid'' \<and> key \<noteq> ''codecPayloadType'' \<and>
               map_of (snd (m ! j)) key = Some v"
    have j': "j < length ?cs" using j by simp
    have at: "?cs ! j = snd (m ! j)" using j by simp
    from h at have rid: "getProp (old ! i) ''rid'' = getProp (?cs ! j) ''rid''"
      and key: "key \<noteq> ''rid''" "key \<noteq> ''codecPayloadType''"
      and v: "map_of (?cs ! j) key = Some v" by simp_all
    from mergeChanged_at[OF j' rid key v]
    show "map_of (mergeChanged (map snd (take (Suc j) m)) (old ! i)) key = Some v"
      by (simp only: take_map)
  next
    fix i j key v
    assume i: "i < length old" and j: "j < length m"
      and h: "getProp (old ! i) ''rid'' = getProp (snd (m ! j)) ''rid'' \<and>
               key \<noteq> ''rid'' \<and> key \<noteq> ''codecPayloadType'' \<and>
               map_of (snd (m ! j)) key = Some v"
      and later: "\<forall>j'. j < j' \<and> j' < length m \<and> \<not> ridDiffers (old ! i) (snd (m ! j')) \<longrightarrow>
                        map_of (snd (m ! j')) key = None"
    have j': "j < length ?cs" using j by simp
    have at: "?cs ! j = snd (m ! j)" using j by simp
    from h at have rid: "getProp (old ! i) ''rid'' = getProp (?cs ! j) ''rid''"
      and key: "key \<noteq> ''rid''" "key \<noteq> ''codecPayloadType''"
      and v: "map_of (?cs ! j) key = Some v" by simp_all
    have later': "\<forall>j'. j < j' \<and> j' < length ?cs \<and> \<not> ridDiffers (old ! i) (?cs ! j') \<longrightarrow>
                  map_of (?cs ! j') key = None"
    proof (intro allI impI)
      fix j' assume b: "j < j' \<and> j' < length ?cs \<and> \<not> ridDiffers (old ! i) (?cs ! j')"
      then have "?cs ! j' = snd (m ! j')" by simp
      with b later show "map_of (?cs ! j') key = None" by simp
    qed
    from mergeChanged_final[OF j' rid key v later']
    show "map_of (?new ! i) key = Some v" using i by simp
  qed
  from new layer show "\<exists>new. senderEncodings (heap (setEncodingParameters pm s) c) = Some new \<and>
         length new = length old \<and>
         (\<forall>i < length old.
            map_of (new ! i) ''rid'' = map_of (old ! i) ''rid'' \<and>
            map_of (new ! i) ''codecPayloadType'' = map_of (old ! i) ''codecPayloadType'' \<and>
            (\<forall>j < length m. \<forall>key v.
               getProp (old ! i) ''rid'' = getProp (snd (m ! j)) ''rid'' \<and>
               key \<noteq> ''rid'' \<and> key \<noteq> ''codecPayloadType'' \<and>
               map_of (snd (m ! j)) key = Some v \<longrightarrow>
                 map_of (mergeChanged (map snd (take (Suc j) m)) (old ! i)) key = Some v \<and>
                 ((\<forall>j'. j < j' \<and> j' < length m \<and> \<not> ridDiffers (old ! i) (snd (m ! j')) \<longrightarrow>
                        map_of (snd (m ! j')) key = None) \<longrightarrow>
                  map_of (new ! i) key = Some v)))"
    by (intro exI[of _ ?new]) simp
qed




theorem setEncodingParameters_merge_witness:
  "localCameraTransceiver scenarioB = Some 0 \<and> direction (heap scenarioB 0) \<noteq> Sendrecv \<and>
   setEncodingParameters (Some examplePatch) scenarioB = scenarioB \<and>
   localCameraTransceiver sendingCamera = Some 0 \<and> direction (heap sendingCamera 0) = Sendrecv \<and>
   examplePatch \<noteq> [] \<and>
   (\<exists>new. senderEncodings (heap (setEncodingParameters (Some examplePatch) sendingCamera) 0) = Some new \<and>
      length new = 2 \<and>
      map_of (new ! 0) ''rid'' = Some (Str ''low'') \<and>
      map_of (new ! 0) ''codecPayloadType'' = Some (Num 96) \<and>
      map_of (new ! 0) ''maxBitrate'' = Some (Num 200))"
proof -
  let ?old = "[[(''rid'', Str ''low''), (''maxBitrate'', Num 100), (''codecPayloadType'', Num 96)],
               [(''rid'', Str ''hi''), (''maxBitrate'', Num 900)]]"
  have b: "localCameraTransceiver scenarioB = Some 0" "direction (heap scenarioB 0) \<noteq> Sendrecv"
    by (simp_all add: example_defs)
  have "localCameraTransceiver scenarioB = None \<or>
     (\<exists>c. localCameraTransceiver scenarioB = Some c \<and> direction (heap scenarioB c) \<noteq> Sendrecv) \<or>
     Some examplePatch = None \<or> Some examplePatch = Some []"
    by (rule disjI2, rule disjI1, rule exI[of _ 0], rule conjI) (rule b)+
  note noop = setEncodingParameters_merge[of scenarioB "Some examplePatch", THEN conjunct1,
      THEN mp, OF this]
  have c: "localCameraTransceiver sendingCamera = Some 0"
    "direction (heap sendingCamera 0) = Sendrecv"
    "senderEncodings (heap sendingCamera 0) = Some ?old"
    by (simp_all add: example_defs)
  have d: "examplePatch \<noteq> []" by (simp add: examplePatch_def)
  have "localCameraTransceiver sendingCamera = Some 0 \<and> direction (heap sendingCamera 0) = Sendrecv \<and>
    Some examplePatch = Some examplePatch \<and> examplePatch \<noteq> [] \<and>
    senderEncodings (heap sendingCamera 0) = Some ?old \<and> ?old \<noteq> []"
    by (intro conjI c d refl) simp
  note ex = setEncodingParameters_merge[of sendingCamera "Some examplePatch" 0 examplePatch ?old,
      THEN conjunct2, THEN mp, OF this]
  have j0: "0 < length examplePatch" by (simp add: examplePatch_def)
  have h: "getProp (?old ! 0) ''rid'' = getProp (snd (examplePatch ! 0)) ''rid'' \<and>
           ''maxBitrate'' \<noteq> ''rid'' \<and> ''maxBitrate'' \<noteq> ''codecPayloadType'' \<and>
           map_of (snd (examplePatch ! 0)) ''maxBitrate'' = Some (Num 200)"
    by (simp add: examplePatch_def getProp_def)
  have later: "\<forall>j'. 0 < j' \<and> j' < length examplePatch \<and>
                  \<not> ridDiffers (?old ! 0) (snd (examplePatch ! j')) \<longrightarrow>
                  map_of (snd (examplePatch ! j')) ''maxBitrate'' = None"
  proof (intro allI impI)
    fix j' assume a: "0 < j' \<and> j' < length examplePatch \<and>
                  \<not> ridDiffers (?old ! 0) (snd (examplePatch ! j'))"
    then have "j' = 1 \<or> j' = 2" by (auto simp: examplePatch_def)
    then have "ridDiffers (?old ! 0) (snd (examplePatch ! j'))"
      by (auto simp: examplePatch_def ridDiffers_def getProp_def truthy_def)
    with a show "map_of (snd (examplePatch ! j')) ''maxBitrate'' = None" by simp
  qed
  have lt: "(0::nat) < length ?old" by simp
  from ex show ?thesis
  proof (rule exE)
    fix new
    assume N: "senderEncodings (heap (setEncodingParameters (Some examplePatch) sendingCamera) 0) = Some new \<and>
         length new = length ?old \<and>
         (\<forall>i < length ?old.
            map_of (new ! i) ''rid'' = map_of (?old ! i) ''rid'' \<and>
            map_of (new ! i) ''codecPayloadType'' = map_of (?old ! i) ''codecPayloadType'' \<and>
            (\<forall>j < length examplePatch. \<forall>key v.
               getProp (?old ! i) ''rid'' = getProp (snd (examplePatch ! j)) ''rid'' \<and>
               key \<noteq> ''rid'' \<and> key \<noteq> ''codecPayloadType'' \<and>
               map_of (snd (examplePatch ! j)) key = Some v \<longrightarrow>
                 map_of (mergeChanged (map snd (take (Suc j) examplePatch)) (?old ! i)) key = Some v \<and>
                 ((\<forall>j'. j < j' \<and> j' < length examplePatch \<and>
                        \<not> ridDiffers (?old ! i) (snd (examplePatch ! j')) \<longrightarrow>
                        map_of (snd (examplePatch ! j')) key = None) \<longrightarrow>
                  map_of (new ! i) key = Some v)))"
    note new = N[THEN conjunct1]
    note len = N[THEN conjunct2, THEN conjunct1]
    note l0 = N[THEN conjunct2, THEN conjunct2, THEN spec[where x = 0], THEN mp, OF lt]
    note rid = l0[THEN conjunct1]
    note cpt = l0[THEN conjunct2, THEN conjunct1]
    note bitrate = l0[THEN conjunct2, THEN conjunct2, THEN spec[where x = 0], THEN mp, OF j0,
        THEN spec[where x = "''maxBitrate''"], THEN spec[where x = "Num 200"], THEN mp, OF h,
        THEN conjunct2, THEN mp, OF later]
    have "length new = 2" using len by simp
    moreover have "map_of (new ! 0) ''rid'' = Some (Str ''low'')" using rid by simp
    moreover have "map_of (new ! 0) ''codecPayloadType'' = Some (Num 96)" using cpt by simp
    ultimately have "senderEncodings (heap (setEncodingParameters (Some examplePatch) sendingCamera) 0) = Some new \<and>
      length new = 2 \<and>
      map_of (new ! 0) ''rid'' = Some (Str ''low'') \<and>
      map_of (new ! 0) ''codecPayloadType'' = Some (Num 96) \<and>
      map_of (new ! 0) ''maxBitrate'' = Some (Num 200)"
      using new bitrate by (intro conjI)
    then have "\<exists>new. senderEncodings (heap (setEncodingParameters (Some examplePatch) sendingCamera) 0) = Some new \<and>
      length new = 2 \<and>
      map_of (new ! 0) ''rid'' = Some (Str ''low'') \<and>
      map_of (new ! 0) ''codecPayloadType'' = Some (Num 96) \<and>
      map_of (new ! 0) ''maxBitrate'' = Some (Num 200)" by (rule exI[where x = new])
    with b noop c(1,2) d show ?thesis by (intro conjI)
  qed
qed

end
